theory Spec2Isabelle
  imports Complex_Main "HOL-Library.AList"
begin

section \<open>Python values and errors\<close>

text \<open>
  The module \<^verbatim>\<open>astrodendro/io/hdf5.py\<close> is Python 2 (it calls \<^verbatim>\<open>itervalues().next()\<close>).
  Every exception the code can raise is a value of \<open>error\<close>; a function that may raise
  returns \<open>error + 'a\<close> with \<open>Inl\<close> for the exception.

  \<open>Unmodelled\<close> is not a Python exception: it marks an input to a library call
  (\<^verbatim>\<open>eval\<close>, \<^verbatim>\<open>int\<close>, numpy indexing) that lies outside the fragment of that call
  described below. Nothing is claimed about what Python does there, and no theorem
  concludes that an error is raised from an \<open>Unmodelled\<close> outcome.
\<close>

datatype error =
    KeyError | ValueError | SyntaxError | IndexError | StopIteration
  | RuntimeError | UnboundLocalError | Unmodelled

text \<open>
  A Python float is represented by the rational number its literal denotes; the code only
  stores and copies floats, it never computes with them.
\<close>

type_synonym pyfloat = rat

text \<open>
  The keys of \<^verbatim>\<open>items\<close>: the string \<^verbatim>\<open>'trunk'\<close> or an integer.
\<close>

datatype key = Trunk | Id int

text \<open>
  The values held by the dictionaries that \<^verbatim>\<open>eval\<close> returns and \<^verbatim>\<open>collect\<close> rewrites:
  a float, or the tuple \<^verbatim>\<open>(items[k], v)\<close>. The first component of the tuple is a
  reference to the dictionary object stored under \<open>k\<close> in \<^verbatim>\<open>items\<close>, so it is
  represented by the key \<open>k\<close>: \<^verbatim>\<open>collect\<close> mutates that object in place, and every tuple
  that refers to it sees the mutation.
\<close>

datatype pyval = Float pyfloat | Pair int pyval

text \<open>
  A dictionary is an association list. Assignment to a key that is present replaces the value
  in place, assignment to a new key appends (\<open>AList.update\<close>). Iteration follows the order of
  the list, that is, insertion order. CPython 2 iterates a dictionary in the order of the slots
  of its hash table, which is another order in general (the keys 2 and 1, inserted in this
  order, are iterated as 1, 2); for the small ascending integer keys of the concrete inputs
  below both orders agree. A general statement below that gives a dictionary as a list means
  the mapping, and what is stated for the claims does not concern the order in which the nodes
  of the trunk or the children of a node follow each other.
\<close>

type_synonym dict = "(int \<times> pyval) list"

type_synonym items = "(key \<times> dict) list"

section \<open>String operations\<close>

fun index_of :: "char \<Rightarrow> string \<Rightarrow> nat option" where
  "index_of c [] = None"
| "index_of c (x # xs) =
     (if x = c then Some 0 else (case index_of c xs of None \<Rightarrow> None | Some j \<Rightarrow> Some (Suc j)))"

text \<open>\<^verbatim>\<open>string.find(c, start)\<close> for a start index \<open>start \<ge> 0\<close>: the lowest index \<open>\<ge> start\<close>
  holding \<open>c\<close>, or \<open>-1\<close>.\<close>

definition find_from :: "char \<Rightarrow> nat \<Rightarrow> string \<Rightarrow> int" where
  "find_from c start s =
     (case index_of c (drop start s) of None \<Rightarrow> - 1 | Some j \<Rightarrow> int (start + j))"

text \<open>A slice bound as Python normalises it: a negative bound counts from the end, and the
  result is clipped to \<open>[0, len]\<close>.\<close>

definition clip :: "nat \<Rightarrow> int \<Rightarrow> nat" where
  "clip n i = (if i < 0 then nat (int n + i) else min n (nat i))"

text \<open>\<^verbatim>\<open>s[a:b]\<close>.\<close>

definition slice :: "string \<Rightarrow> int \<Rightarrow> int \<Rightarrow> string" where
  "slice s a b = take (clip (length s) b - clip (length s) a) (drop (clip (length s) a) s)"

definition is_digit :: "char \<Rightarrow> bool" where
  "is_digit c \<longleftrightarrow> c \<in> set ''0123456789''"

definition digit_val :: "char \<Rightarrow> nat" where
  "digit_val c = of_char c - 48"

definition decimal :: "string \<Rightarrow> nat" where
  "decimal ds = foldl (\<lambda>n c. 10 * n + digit_val c) 0 ds"

definition is_space :: "char \<Rightarrow> bool" where
  "is_space c \<longleftrightarrow> c \<in> {CHR '' '', CHR 0x09, CHR 0x0A, CHR 0x0B, CHR 0x0C, CHR 0x0D}"

definition strip :: "string \<Rightarrow> string" where
  "strip s = rev (dropWhile is_space (rev (dropWhile is_space s)))"

text \<open>
  \<^verbatim>\<open>int(s)\<close> on a string: surrounding white space is ignored, one sign is allowed, the rest
  must be a non-empty run of decimal digits; anything else raises \<^verbatim>\<open>ValueError\<close>. The one
  form left out is white space between the sign and the digits.
\<close>

definition py_int :: "string \<Rightarrow> error + int" where
  "py_int s =
     (let t = strip s;
          neg = (t \<noteq> [] \<and> hd t = CHR ''-'');
          ds = (if t \<noteq> [] \<and> (hd t = CHR ''-'' \<or> hd t = CHR ''+'') then tl t else t)
      in if ds \<noteq> [] \<and> list_all is_digit ds
           then Inr (if neg then - int (decimal ds) else int (decimal ds))
         else if ds \<noteq> [] \<and> is_space (hd ds) then Inl Unmodelled
         else Inl ValueError)"

fun split_on :: "char \<Rightarrow> string \<Rightarrow> string list" where
  "split_on c [] = [[]]"
| "split_on c (x # xs) =
     (if x = c then [] # split_on c xs
      else (case split_on c xs of [] \<Rightarrow> [[x]] | w # ws \<Rightarrow> (x # w) # ws))"

section \<open>The mapping literals given to \<^verbatim>\<open>eval\<close>\<close>

text \<open>
  \<^verbatim>\<open>eval("{%s}" % text)\<close> is Python's expression evaluator. The fragment described here is
  the text of a dictionary display whose entries are \<^verbatim>\<open>key:value\<close>, separated by commas and
  without white space, where a key is a decimal integer literal (\<^verbatim>\<open>0\<close>, or digits not
  starting with \<^verbatim>\<open>0\<close>) and a value is a float literal \<^verbatim>\<open>digits.digits\<close>, optionally
  preceded by \<^verbatim>\<open>-\<close>. The empty text is the empty dictionary. A text that starts with a
  colon is a syntax error in Python, whatever follows (no expression starts with a colon).
  Every other text is \<open>Unmodelled\<close>.
\<close>

definition int_literal :: "string \<Rightarrow> int option" where
  "int_literal t =
     (if t \<noteq> [] \<and> list_all is_digit t \<and> (hd t = CHR ''0'' \<longrightarrow> t = ''0'')
      then Some (int (decimal t)) else None)"

definition float_literal :: "string \<Rightarrow> pyfloat option" where
  "float_literal t =
     (let neg = (t \<noteq> [] \<and> hd t = CHR ''-'');
          u = (if neg then tl t else t)
      in (case split_on CHR ''.'' u of
            [ip, fp] \<Rightarrow>
              if ip \<noteq> [] \<and> fp \<noteq> [] \<and> list_all is_digit ip \<and> list_all is_digit fp
              then Some ((if neg then - 1 else 1) *
                         (of_nat (decimal (ip @ fp)) / 10 ^ length fp))
              else None
          | _ \<Rightarrow> None))"

definition entry :: "string \<Rightarrow> (int \<times> pyval) option" where
  "entry t =
     (case split_on CHR '':'' t of
        [k, v] \<Rightarrow>
          (case int_literal k of None \<Rightarrow> None
           | Some i \<Rightarrow> (case float_literal v of None \<Rightarrow> None | Some x \<Rightarrow> Some (i, Float x)))
      | _ \<Rightarrow> None)"

fun entries :: "string list \<Rightarrow> dict \<Rightarrow> dict option" where
  "entries [] d = Some d"
| "entries (t # ts) d =
     (case entry t of None \<Rightarrow> None | Some (k, v) \<Rightarrow> entries ts (AList.update k v d))"

definition eval_dict :: "string \<Rightarrow> error + dict" where
  "eval_dict text =
     (if text = [] then Inr []
      else if hd text = CHR '':'' then Inl SyntaxError
      else (case entries (split_on CHR '','' text) [] of
              None \<Rightarrow> Inl Unmodelled | Some d \<Rightarrow> Inr d))"

section \<open>\<^verbatim>\<open>_parse_newick\<close>\<close>

subsection \<open>Maximum nesting level\<close>

text \<open>
  \<^verbatim>\<open>
    current_level = 0
    max_level = 0
    for i, c in enumerate(string):
        if c == '(':
            current_level += 1
        if c == ')':
            current_level -= 1
        max_level = max(max_level, current_level)
  \<close>
\<close>

fun scan_levels :: "string \<Rightarrow> int \<Rightarrow> int \<Rightarrow> int" where
  "scan_levels [] current_level max_level = max_level"
| "scan_levels (c # cs) current_level max_level =
     (let l1 = (if c = CHR ''('' then current_level + 1 else current_level);
          l2 = (if c = CHR '')'' then l1 - 1 else l1)
      in scan_levels cs l2 (max max_level l2))"

definition find_max_level :: "string \<Rightarrow> int" where
  "find_max_level string = scan_levels string 0 0"

subsection \<open>The spans of one level\<close>

text \<open>
  \<^verbatim>\<open>
    pairs = []
    current_level = 0
    for i, c in enumerate(string):
        if c == '(':
            current_level += 1
            if current_level == level:
                start = i
        if c == ')':
            if current_level == level:
                pairs.append((start, i))
            current_level -= 1
  \<close>
  The local variable \<^verbatim>\<open>start\<close> is unbound when the function is entered and keeps its value
  from one level to the next; it is an \<open>option\<close>, and reading it unbound raises.
\<close>

fun find_pairs ::
  "int \<Rightarrow> string \<Rightarrow> nat \<Rightarrow> int \<Rightarrow> nat option \<Rightarrow> (nat \<times> nat) list
     \<Rightarrow> error + ((nat \<times> nat) list \<times> nat option)" where
  "find_pairs level [] i current_level start pairs = Inr (pairs, start)"
| "find_pairs level (c # cs) i current_level start pairs =
     (if c = CHR ''('' then
        find_pairs level cs (Suc i) (current_level + 1)
          (if current_level + 1 = level then Some i else start) pairs
      else if c = CHR '')'' then
        (if current_level = level then
           (case start of
              None \<Rightarrow> Inl UnboundLocalError
            | Some st \<Rightarrow> find_pairs level cs (Suc i) (current_level - 1) start (pairs @ [(st, i)]))
         else find_pairs level cs (Suc i) (current_level - 1) start pairs)
      else find_pairs level cs (Suc i) current_level start pairs)"

subsection \<open>Resolving the spans of one level, right to left\<close>

text \<open>
  \<^verbatim>\<open>
    for pair in pairs[::-1]:
        start, end = pair
        colon = string.find(":", end)
        branch_id = string[end + 1:colon]
        if branch_id == '':
            branch_id = 'trunk'
        else:
            branch_id = int(branch_id)
        items[branch_id] = eval("{%s}" % string[start + 1:end])
        string = string[:start] + string[end + 1:]
  \<close>
  The first argument is the list \<^verbatim>\<open>pairs[::-1]\<close>.
\<close>

definition branch_key :: "string \<Rightarrow> error + key" where
  "branch_key branch_id =
     (if branch_id = [] then Inr Trunk
      else (case py_int branch_id of Inl e \<Rightarrow> Inl e | Inr n \<Rightarrow> Inr (Id n)))"

fun excise :: "(nat \<times> nat) list \<Rightarrow> string \<Rightarrow> items \<Rightarrow> error + (string \<times> items)" where
  "excise [] string items = Inr (string, items)"
| "excise ((start, end) # pairs) string items =
     (let colon = find_from CHR '':'' end string;
          branch_id = slice string (int end + 1) colon
      in (case branch_key branch_id of
            Inl e \<Rightarrow> Inl e
          | Inr k \<Rightarrow>
              (case eval_dict (slice string (int start + 1) (int end)) of
                 Inl e \<Rightarrow> Inl e
               | Inr d \<Rightarrow>
                   excise pairs (take start string @ drop (Suc end) string)
                     (AList.update k d items))))"

subsection \<open>The loop over the levels\<close>

text \<open>
  \<^verbatim>\<open>for level in range(max_level, 0, -1)\<close>: the first argument counts down from
  \<^verbatim>\<open>max_level\<close> to 1. After the inner loop \<^verbatim>\<open>start\<close> holds the start of the span resolved
  last, which is the first of \<^verbatim>\<open>pairs\<close>.
\<close>

fun levels ::
  "nat \<Rightarrow> string \<Rightarrow> items \<Rightarrow> nat option \<Rightarrow> error + (string \<times> items \<times> nat option)" where
  "levels 0 string items start = Inr (string, items, start)"
| "levels (Suc n) string items start =
     (case find_pairs (int (Suc n)) string 0 0 start [] of
        Inl e \<Rightarrow> Inl e
      | Inr (pairs, start1) \<Rightarrow>
          (case excise (rev pairs) string items of
             Inl e \<Rightarrow> Inl e
           | Inr (string', items') \<Rightarrow>
               levels n string' items'
                 (if pairs = [] then start1 else Some (fst (hd pairs)))))"

subsection \<open>Linking: \<^verbatim>\<open>collect\<close>\<close>

text \<open>
  \<^verbatim>\<open>
    def collect(d):
        for item in d:
            if item in items:
                collect(items[item])
                d[item] = (items[item], d[item])
        return
  \<close>
  \<^verbatim>\<open>collect\<close> is only ever called on a dictionary object stored in \<^verbatim>\<open>items\<close>, so the
  argument \<open>d\<close> is given by its key. The loop runs over the keys of \<open>d\<close>, which do not change;
  the values are read from the current store. The recursion is not bounded by the code: the
  first argument is the number of nested calls the interpreter still allows, and a call
  beyond it raises \<^verbatim>\<open>RuntimeError\<close> (maximum recursion depth exceeded).
\<close>

definition lookup :: "('k \<times> 'v) list \<Rightarrow> 'k \<Rightarrow> error + 'v" where
  "lookup m k = (case map_of m k of None \<Rightarrow> Inl KeyError | Some v \<Rightarrow> Inr v)"

fun collect :: "nat \<Rightarrow> key \<Rightarrow> items \<Rightarrow> error + items"
  and collect_loop :: "nat \<Rightarrow> key \<Rightarrow> int list \<Rightarrow> items \<Rightarrow> error + items" where
  "collect 0 k items = Inl RuntimeError"
| "collect (Suc n) k items =
     (case lookup items k of
        Inl e \<Rightarrow> Inl e
      | Inr d \<Rightarrow> collect_loop n k (map fst d) items)"
| "collect_loop n k [] items = Inr items"
| "collect_loop n k (item # rest) items =
     (if map_of items (Id item) \<noteq> None then
        (case collect n (Id item) items of
           Inl e \<Rightarrow> Inl e
         | Inr items1 \<Rightarrow>
             (case lookup items1 k of
                Inl e \<Rightarrow> Inl e
              | Inr d \<Rightarrow>
                  (case lookup d item of
                     Inl e \<Rightarrow> Inl e
                   | Inr v \<Rightarrow>
                       collect_loop n k rest
                         (AList.update k (AList.update item (Pair item v) d) items1))))
      else collect_loop n k rest items)"

subsection \<open>The parser\<close>

text \<open>
  \<^verbatim>\<open>
    collect(items['trunk'])
    return items['trunk']
  \<close>
  The result is the dictionary stored under \<^verbatim>\<open>'trunk'\<close> together with the store that the
  references inside it point into. The first argument is the recursion depth available to
  \<^verbatim>\<open>collect\<close>.
\<close>

definition parse_newick :: "nat \<Rightarrow> string \<Rightarrow> error + (dict \<times> items)" where
  "parse_newick depth string =
     (case levels (nat (find_max_level string)) string [] None of
        Inl e \<Rightarrow> Inl e
      | Inr (string', items, start) \<Rightarrow>
          (case lookup items Trunk of
             Inl e \<Rightarrow> Inl e
           | Inr _ \<Rightarrow>
               (case collect depth Trunk items of
                  Inl e \<Rightarrow> Inl e
                | Inr items' \<Rightarrow>
                    (case lookup items' Trunk of
                       Inl e \<Rightarrow> Inl e
                     | Inr d \<Rightarrow> Inr (d, items')))))"

section \<open>Arrays\<close>

text \<open>
  A numpy array is its shape and its elements in row-major order. \<open>np_indices shape\<close> is
  \<^verbatim>\<open>np.indices(shape).reshape(ndim, prod(shape)).transpose()\<close>: every coordinate of the
  array, the first axis varying slowest.
\<close>

record 'a ndarray =
  shape :: "nat list"
  flat :: "'a list"

fun np_indices :: "nat list \<Rightarrow> nat list list" where
  "np_indices [] = [[]]"
| "np_indices (n # ns) = concat (map (\<lambda>i. map ((#) i) (np_indices ns)) [0..<n])"

definition offset :: "nat list \<Rightarrow> nat list \<Rightarrow> nat" where
  "offset shp coord = foldl (\<lambda>acc (n, i). acc * n + i) 0 (zip shp coord)"

text \<open>
  \<^verbatim>\<open>a[coord]\<close> for a tuple of non-negative indices. Too many indices, or an index out of
  range, raise \<^verbatim>\<open>IndexError\<close>. With fewer indices than axes numpy returns a sub-array, which
  is left out, as is an array whose element list is shorter than its shape says.
\<close>

definition getitem :: "'a ndarray \<Rightarrow> nat list \<Rightarrow> error + 'a" where
  "getitem a coord =
     (if length (shape a) < length coord then Inl IndexError
      else if length coord < length (shape a) then Inl Unmodelled
      else if \<not> list_all2 (<) coord (shape a) then Inl IndexError
      else if offset (shape a) coord < length (flat a)
        then Inr (flat a ! offset (shape a) coord)
      else Inl Unmodelled)"

section \<open>The dendrogram and its nodes\<close>

text \<open>
  Modelled from the spec: the class \<^verbatim>\<open>Structure\<close> (module \<^verbatim>\<open>structure\<close>) and the class
  \<^verbatim>\<open>Dendrogram\<close> are not part of the source at hand. A node holds what the call
  \<^verbatim>\<open>Structure(node_indices, f, children=sub_nodes, idx=idx)\<close> passes to it (the owned
  coordinates, the owned values, the children, the identity) and the cached depth
  \<^verbatim>\<open>_level\<close>, which is unset in a new node. The call passes no height, so a node records none.
  \<open>addr\<close> is the identity of the Python object (the nodes are numbered as they are created);
  the index \<^verbatim>\<open>d.nodes_dict\<close> holds references to nodes, that is, addresses.
\<close>

datatype node =
  Structure (addr: nat) (indices: "nat list list") (vals: "pyfloat list")
    (children: "node list") (idx: int) (level: "int option")

record dendrogram =
  n_dim :: nat
  data :: "pyfloat ndarray"
  index_map :: "int ndarray"
  nodes_dict :: "(int \<times> nat) list"
  trunk :: "node list"

text \<open>The content of the HDF5 file: the attribute and the three datasets that are read.\<close>

record h5file =
  attr_n_dim :: nat
  ds_data :: "pyfloat ndarray"
  ds_index_map :: "int ndarray"
  ds_newick :: string

section \<open>The label aggregation loop\<close>

text \<open>
  \<^verbatim>\<open>
    for coord in indices:
        coord = tuple(coord)
        idx = d.index_map[coord]
        if idx:
            try:
                flux_by_node[idx].append(d.data[coord])
                indices_by_node[idx].append(coord)
            except KeyError:
                flux_by_node[idx] = [d.data[coord]]
                indices_by_node[idx] = [coord]
  \<close>
  The two tables are the pair \<open>(flux_by_node, indices_by_node)\<close>.
\<close>

type_synonym tables = "(int \<times> pyfloat list) list \<times> (int \<times> nat list list) list"

fun aggregate :: "dendrogram \<Rightarrow> nat list list \<Rightarrow> tables \<Rightarrow> error + tables" where
  "aggregate d [] t = Inr t"
| "aggregate d (coord # rest) (flux_by_node, indices_by_node) =
     (case getitem (index_map d) coord of
        Inl e \<Rightarrow> Inl e
      | Inr ix \<Rightarrow>
          if ix \<noteq> 0 then
            (case getitem (data d) coord of
               Inl e \<Rightarrow> Inl e
             | Inr v \<Rightarrow>
                 (case map_of flux_by_node ix of
                    None \<Rightarrow>
                      aggregate d rest
                        (AList.update ix [v] flux_by_node, AList.update ix [coord] indices_by_node)
                  | Some fs \<Rightarrow>
                      (case map_of indices_by_node ix of
                         None \<Rightarrow>
                           aggregate d rest
                             (AList.update ix [v] flux_by_node,
                              AList.update ix [coord] indices_by_node)
                       | Some cs \<Rightarrow>
                           aggregate d rest
                             (AList.update ix (fs @ [v]) flux_by_node,
                              AList.update ix (cs @ [coord]) indices_by_node))))
          else aggregate d rest (flux_by_node, indices_by_node))"

section \<open>\<^verbatim>\<open>_construct_tree\<close>\<close>

text \<open>
  \<^verbatim>\<open>
    def _construct_tree(repr):
        nodes = []
        for idx in repr:
            node_indices = indices_by_node[idx]
            f = flux_by_node[idx]
            if type(repr[idx]) == tuple:
                sub_nodes_repr = repr[idx][0]
                sub_nodes = _construct_tree(sub_nodes_repr)
                for i in sub_nodes:
                    d.nodes_dict[i.idx] = i
                b = Structure(node_indices, f, children=sub_nodes, idx=idx)
                first_child_repr = sub_nodes_repr.itervalues().next()
                if type(first_child_repr) == tuple:
                    height = first_child_repr[1]
                else:
                    height = first_child_repr
                d.nodes_dict[idx] = b
                nodes.append(b)
            else:
                l = Structure(node_indices, f, idx=idx)
                nodes.append(l)
                d.nodes_dict[idx] = l
        return nodes
  \<close>
  The argument \<^verbatim>\<open>repr\<close> is a dictionary object of the store, given by its key. The state is
  the next free address and \<^verbatim>\<open>d.nodes_dict\<close>. \<^verbatim>\<open>itervalues().next()\<close> raises
  \<^verbatim>\<open>StopIteration\<close> on an empty dictionary; the variable \<^verbatim>\<open>height\<close> is assigned and never
  read. As for \<^verbatim>\<open>collect\<close>, the first argument bounds the nesting of the calls.
\<close>

type_synonym build_state = "nat \<times> (int \<times> nat) list"

definition register :: "node list \<Rightarrow> (int \<times> nat) list \<Rightarrow> (int \<times> nat) list" where
  "register sub_nodes nd = foldl (\<lambda>m i. AList.update (idx i) (addr i) m) nd sub_nodes"

fun construct_tree ::
    "nat \<Rightarrow> tables \<Rightarrow> items \<Rightarrow> key \<Rightarrow> build_state \<Rightarrow> error + (node list \<times> build_state)"
  and construct_loop ::
    "nat \<Rightarrow> tables \<Rightarrow> items \<Rightarrow> dict \<Rightarrow> node list \<Rightarrow> build_state
       \<Rightarrow> error + (node list \<times> build_state)" where
  "construct_tree 0 t items k st = Inl RuntimeError"
| "construct_tree (Suc n) t items k st =
     (case lookup items k of
        Inl e \<Rightarrow> Inl e
      | Inr repr \<Rightarrow> construct_loop n t items repr [] st)"
| "construct_loop n t items [] nodes st = Inr (nodes, st)"
| "construct_loop n t items ((ix, v) # rest) nodes st =
     (case lookup (snd t) ix of
        Inl e \<Rightarrow> Inl e
      | Inr node_indices \<Rightarrow>
          (case lookup (fst t) ix of
             Inl e \<Rightarrow> Inl e
           | Inr f \<Rightarrow>
               (case v of
                  Pair j h \<Rightarrow>
                    (case construct_tree n t items (Id j) st of
                       Inl e \<Rightarrow> Inl e
                     | Inr (sub_nodes, (next, nd)) \<Rightarrow>
                         (case lookup items (Id j) of
                            Inl e \<Rightarrow> Inl e
                          | Inr sub_nodes_repr \<Rightarrow>
                              if sub_nodes_repr = [] then Inl StopIteration
                              else
                                construct_loop n t items rest
                                  (nodes @ [Structure next node_indices f sub_nodes ix None])
                                  (Suc next, AList.update ix next (register sub_nodes nd))))
                | Float h \<Rightarrow>
                    construct_loop n t items rest
                      (nodes @ [Structure (fst st) node_indices f [] ix None])
                      (Suc (fst st), AList.update ix (fst st) (snd st)))))"

section \<open>\<^verbatim>\<open>dendro_import_hdf5\<close>\<close>

text \<open>
  \<^verbatim>\<open>
    d.trunk = _construct_tree(_parse_newick(h5f['newick'].value))
    for node in d.trunk:
        node._level = 0
    return d
  \<close>
  The function reads the file, runs the aggregation loop, parses the topology, builds the
  nodes and caches depth 0 in the nodes of the trunk.
\<close>

fun set_level :: "int \<Rightarrow> node \<Rightarrow> node" where
  "set_level l (Structure a cs vs ch ix _) = Structure a cs vs ch ix (Some l)"

definition dendro_import_hdf5 :: "nat \<Rightarrow> h5file \<Rightarrow> error + dendrogram" where
  "dendro_import_hdf5 depth h5f =
     (let d = \<lparr>n_dim = attr_n_dim h5f, data = ds_data h5f, index_map = ds_index_map h5f,
               nodes_dict = [], trunk = []\<rparr>
      in (case aggregate d (np_indices (shape (data d))) ([], []) of
            Inl e \<Rightarrow> Inl e
          | Inr t \<Rightarrow>
              (case parse_newick depth (ds_newick h5f) of
                 Inl e \<Rightarrow> Inl e
               | Inr (repr, items) \<Rightarrow>
                   (case construct_tree depth t items Trunk (0, nodes_dict d) of
                      Inl e \<Rightarrow> Inl e
                    | Inr (nodes, (next, nd)) \<Rightarrow>
                        Inr (d\<lparr>nodes_dict := nd, trunk := map (set_level 0) nodes\<rparr>)))))"

section \<open>Notions used in the statements\<close>

text \<open>
  None of the following is code of the module; these are the notions in which the properties
  below are stated.

  A file with one-dimensional arrays: the data, the labels and the topology string.
\<close>

definition file1d :: "pyfloat list \<Rightarrow> int list \<Rightarrow> string \<Rightarrow> h5file" where
  "file1d xs ls s =
     \<lparr>attr_n_dim = 1, ds_data = \<lparr>shape = [length xs], flat = xs\<rparr>,
      ds_index_map = \<lparr>shape = [length ls], flat = ls\<rparr>, ds_newick = s\<rparr>"

text \<open>The dendrogram as \<^verbatim>\<open>dendro_import_hdf5\<close> sets it up before the aggregation loop.\<close>

definition fresh :: "h5file \<Rightarrow> dendrogram" where
  "fresh h5f =
     \<lparr>n_dim = attr_n_dim h5f, data = ds_data h5f, index_map = ds_index_map h5f,
      nodes_dict = [], trunk = []\<rparr>"

text \<open>The coordinates among \<open>coords\<close> whose label is \<open>v\<close>, in the order of \<open>coords\<close>.\<close>

definition labelled :: "dendrogram \<Rightarrow> nat list list \<Rightarrow> int \<Rightarrow> nat list list" where
  "labelled d coords v = filter (\<lambda>c. getitem (index_map d) c = Inr v) coords"

text \<open>Appending to the list stored under a key, the key being created on first use.\<close>

fun extend :: "'a list option \<Rightarrow> 'a list \<Rightarrow> 'a list option" where
  "extend None xs = (if xs = [] then None else Some xs)"
| "extend (Some ys) xs = Some (ys @ xs)"

text \<open>The two tables have the same keys, and under each key the values are the data at the
  coordinates, position by position.\<close>

definition parallel :: "dendrogram \<Rightarrow> tables \<Rightarrow> bool" where
  "parallel d t \<longleftrightarrow>
     (\<forall>v. (map_of (fst t) v = None \<longleftrightarrow> map_of (snd t) v = None)) \<and>
     (\<forall>v fs cs. map_of (fst t) v = Some fs \<longrightarrow> map_of (snd t) v = Some cs \<longrightarrow>
        fs \<noteq> [] \<and> list_all2 (\<lambda>x c. getitem (data d) c = Inr x) fs cs)"

text \<open>A node and everything below it; all nodes of a forest.\<close>

fun descendants :: "node \<Rightarrow> node list" where
  "descendants (Structure a cs vs ch ix l) =
     Structure a cs vs ch ix l # concat (map descendants ch)"

definition all_nodes :: "node list \<Rightarrow> node list" where
  "all_nodes ns = concat (map descendants ns)"

text \<open>The identities of a store: the keys of its dictionaries.\<close>

definition identities :: "items \<Rightarrow> int set" where
  "identities items = {ix. \<exists>k dct v. map_of items k = Some dct \<and> (ix, v) \<in> set dct}"

text \<open>Every tuple in the store refers to the dictionary stored under the key it stands at.\<close>

definition own_keys :: "items \<Rightarrow> bool" where
  "own_keys items \<longleftrightarrow>
     (\<forall>k dct ix j h. map_of items k = Some dct \<longrightarrow> (ix, Pair j h) \<in> set dct \<longrightarrow> j = ix)"

definition floats_only :: "dict \<Rightarrow> bool" where
  "floats_only d \<longleftrightarrow> (\<forall>(ix, v) \<in> set d. \<exists>h. v = Float h)"

definition store_floats :: "items \<Rightarrow> bool" where
  "store_floats items \<longleftrightarrow> (\<forall>k d. map_of items k = Some d \<longrightarrow> floats_only d)"

text \<open>
  What \<^verbatim>\<open>_construct_tree\<close> establishes for a node: its coordinates and values are the
  entries of the two tables under its identity, its identity is a key of the parsed topology,
  and its children, if any, follow the keys of the mapping stored under its identity.
\<close>

definition built :: "tables \<Rightarrow> items \<Rightarrow> node \<Rightarrow> bool" where
  "built t items m \<longleftrightarrow>
     map_of (snd t) (idx m) = Some (indices m) \<and>
     map_of (fst t) (idx m) = Some (vals m) \<and>
     idx m \<in> identities items \<and>
     (children m \<noteq> [] \<longrightarrow>
        (\<exists>dct. map_of items (Id (idx m)) = Some dct \<and> map idx (children m) = map fst dct))"

text \<open>A string has no parenthesised group when no closing parenthesis stands after an opening
  one: what follows the first opening parenthesis, if there is any, holds no closing one.\<close>

definition no_group :: "string \<Rightarrow> bool" where
  "no_group s \<longleftrightarrow> CHR '')'' \<notin> set (dropWhile (\<lambda>c. c \<noteq> CHR ''('') s)"

text \<open>
  A concrete input used to instantiate the properties: a one-dimensional field of five pixels,
  a branch 3 over the leaves 1 and 2, and the dendrogram the import returns for it.
\<close>

definition branch_file :: h5file where
  "branch_file =
     file1d [1/2, 3/4, 1, 5/4, 3/2] [1, 1, 2, 2, 3] ''((1:1.0,2:1.5)3:4.0);''"

definition branch_node :: node where
  "branch_node =
     Structure 2 [[4]] [3/2]
       [Structure 0 [[0], [1]] [1/2, 3/4] [] 1 None,
        Structure 1 [[2], [3]] [1, 5/4] [] 2 None]
       3 (Some 0)"

definition branch_dendrogram :: dendrogram where
  "branch_dendrogram =
     \<lparr>n_dim = 1, data = \<lparr>shape = [5], flat = [1/2, 3/4, 1, 5/4, 3/2]\<rparr>,
      index_map = \<lparr>shape = [5], flat = [1, 1, 2, 2, 3]\<rparr>,
      nodes_dict = [(1, 0), (2, 1), (3, 2)],
      trunk = [branch_node]\<rparr>"

text \<open>A second input: two root leaves, and one pixel whose label 7 the topology does not
  mention.\<close>

definition leaves_file :: h5file where
  "leaves_file = file1d [1/2, 1, 3/2, 2, 5/2, 3] [1, 1, 7, 2, 2, 2] ''(1:2.0,2:3.0):''"

definition leaves_dendrogram :: dendrogram where
  "leaves_dendrogram =
     \<lparr>n_dim = 1, data = \<lparr>shape = [6], flat = [1/2, 1, 3/2, 2, 5/2, 3]\<rparr>,
      index_map = \<lparr>shape = [6], flat = [1, 1, 7, 2, 2, 2]\<rparr>,
      nodes_dict = [(1, 0), (2, 1)],
      trunk =
        [Structure 0 [[0], [1]] [1/2, 1] [] 1 (Some 0),
         Structure 1 [[3], [4], [5]] [2, 5/2, 3] [] 2 (Some 0)]\<rparr>"

text \<open>A two-dimensional field with its labels.\<close>

definition grid :: dendrogram where
  "grid =
     \<lparr>n_dim = 2, data = \<lparr>shape = [2, 3], flat = [1, 2, 3, 4, 5, 6]\<rparr>,
      index_map = \<lparr>shape = [2, 3], flat = [5, 0, 0, - 1, 5, 5]\<rparr>,
      nodes_dict = [], trunk = []\<rparr>"




section \<open>Well-formed topology strings\<close>

text \<open>
  The strings the parser is written for. A node is written \<^verbatim>\<open>identity:height\<close>, and a branch
  puts the comma-separated list of its children, in parentheses, in front of that; the document
  is the parenthesised list of the root nodes followed by \<^verbatim>\<open>;\<close> or by \<^verbatim>\<open>:\<close>. A topology is
  given with the tokens of its identities and heights as they stand in the string.
\<close>

datatype topo = Leaf string string | Branch "topo list" string string

fun id_token :: "topo \<Rightarrow> string" where
  "id_token (Leaf i h) = i"
| "id_token (Branch ts i h) = i"

fun height_token :: "topo \<Rightarrow> string" where
  "height_token (Leaf i h) = h"
| "height_token (Branch ts i h) = h"

fun subtrees :: "topo \<Rightarrow> topo list" where
  "subtrees (Leaf i h) = []"
| "subtrees (Branch ts i h) = ts"

definition entry_text :: "topo \<Rightarrow> string" where
  "entry_text t = id_token t @ CHR '':'' # height_token t"

definition commas :: "string list \<Rightarrow> string" where
  "commas xs = (case xs of [] \<Rightarrow> [] | x # ys \<Rightarrow> x @ concat (map ((#) CHR '','') ys))"

text \<open>\<open>render_cut n t\<close> writes \<open>t\<close> with \<open>n\<close> levels of parentheses; what lies deeper is written
  as the entry \<^verbatim>\<open>identity:height\<close> that remains once a group has been excised.\<close>

fun render_cut :: "nat \<Rightarrow> topo \<Rightarrow> string" where
  "render_cut 0 t = entry_text t"
| "render_cut (Suc n) (Leaf i h) = entry_text (Leaf i h)"
| "render_cut (Suc n) (Branch ts i h) =
     CHR ''('' # commas (map (render_cut n) ts) @ CHR '')'' # entry_text (Branch ts i h)"

fun max_list :: "nat list \<Rightarrow> nat" where
  "max_list [] = 0"
| "max_list (x # xs) = max x (max_list xs)"

fun depth_of :: "topo \<Rightarrow> nat" where
  "depth_of (Leaf i h) = 0"
| "depth_of (Branch ts i h) = Suc (max_list (map depth_of ts))"

definition render :: "topo \<Rightarrow> string" where
  "render t = render_cut (depth_of t) t"

definition document :: "topo list \<Rightarrow> string \<Rightarrow> string" where
  "document ts tail = CHR ''('' # commas (map render ts) @ CHR '')'' # tail"

text \<open>All nodes of a topology.\<close>

fun topo_nodes :: "topo \<Rightarrow> topo list" where
  "topo_nodes (Leaf i h) = [Leaf i h]"
| "topo_nodes (Branch ts i h) = Branch ts i h # concat (map topo_nodes ts)"

definition identity :: "topo \<Rightarrow> int" where
  "identity t = int (decimal (id_token t))"

definition height :: "topo \<Rightarrow> pyfloat" where
  "height t = the (float_literal (height_token t))"

text \<open>
  A forest is well formed when every identity token is a decimal integer literal, every height
  token a float literal, and no two nodes have the same identity.
\<close>

definition well_formed :: "topo list \<Rightarrow> bool" where
  "well_formed ts \<longleftrightarrow>
     (\<forall>t \<in> set (concat (map topo_nodes ts)).
        int_literal (id_token t) \<noteq> None \<and> float_literal (height_token t) \<noteq> None) \<and>
     distinct (map identity (concat (map topo_nodes ts)))"

text \<open>The mapping a list of nodes stands for: before linking every value is the height, after
  linking the value of a branch is the pair of the mapping of the branch and the height.\<close>

definition plain_entry :: "topo \<Rightarrow> int \<times> pyval" where
  "plain_entry t = (identity t, Float (height t))"

fun linked_entry :: "topo \<Rightarrow> int \<times> pyval" where
  "linked_entry (Leaf i h) = plain_entry (Leaf i h)"
| "linked_entry (Branch ts i h) =
     (identity (Branch ts i h), Pair (identity (Branch ts i h)) (Float (height (Branch ts i h))))"

text \<open>
  The notions below describe one pass of the loop over the levels on such a string: the
  characters that are no parentheses, the validity of the tokens of a node, the spans found at
  a level, and the store after the spans are resolved.
\<close>

definition plain :: "string \<Rightarrow> bool" where
  "plain s \<longleftrightarrow>
     CHR ''('' \<notin> set s \<and> CHR '')'' \<notin> set s \<and> CHR '','' \<notin> set s \<and> CHR '':'' \<notin> set s"

definition noparen :: "string \<Rightarrow> bool" where
  "noparen s \<longleftrightarrow> CHR ''('' \<notin> set s \<and> CHR '')'' \<notin> set s"

fun join :: "char \<Rightarrow> string list \<Rightarrow> string" where
  "join c [] = []"
| "join c [w] = w"
| "join c (w # v # ws) = w @ c # join c (v # ws)"

definition tok_ok :: "topo \<Rightarrow> bool" where
  "tok_ok t \<longleftrightarrow> int_literal (id_token t) \<noteq> None \<and> float_literal (height_token t) \<noteq> None"

text \<open>\<open>spans n t off\<close>: the spans of the groups that lie \<open>n\<close> levels deep in \<open>render_cut n t\<close>, when
  this text starts at offset \<open>off\<close>.\<close>

fun spans :: "nat \<Rightarrow> topo \<Rightarrow> nat \<Rightarrow> (nat \<times> nat) list"
  and spans_list :: "nat \<Rightarrow> topo list \<Rightarrow> nat \<Rightarrow> (nat \<times> nat) list" where
  "spans n (Leaf i h) off = []"
| "spans 0 (Branch ts i h) off = []"
| "spans (Suc 0) (Branch ts i h) off = [(off, off + length (commas (map entry_text ts)) + 1)]"
| "spans (Suc (Suc n)) (Branch ts i h) off = spans_list (Suc n) ts (Suc off)"
| "spans_list n [] off = []"
| "spans_list n (t # ts) off =
     spans n t off @ spans_list n ts (off + length (render_cut n t) + 1)"

text \<open>The store after these spans are resolved, the last span first.\<close>

fun store :: "nat \<Rightarrow> topo \<Rightarrow> items \<Rightarrow> items"
  and store_list :: "nat \<Rightarrow> topo list \<Rightarrow> items \<Rightarrow> items" where
  "store n (Leaf i h) items = items"
| "store 0 (Branch ts i h) items = items"
| "store (Suc 0) (Branch ts i h) items =
     AList.update (Id (identity (Branch ts i h))) (map plain_entry ts) items"
| "store (Suc (Suc n)) (Branch ts i h) items = store_list (Suc n) ts items"
| "store_list n [] items = items"
| "store_list n (t # ts) items = store n t (store_list n ts items)"

text \<open>The store after the levels \<open>n + 1, n, \<dots>, 1\<close> of a document.\<close>

fun final_store :: "nat \<Rightarrow> topo list \<Rightarrow> items \<Rightarrow> items" where
  "final_store 0 ts items = AList.update Trunk (map plain_entry ts) items"
| "final_store (Suc n) ts items = final_store n ts (store_list (Suc n) ts items)"

definition doc_cut :: "nat \<Rightarrow> topo list \<Rightarrow> string \<Rightarrow> string" where
  "doc_cut n ts tail = CHR ''('' # commas (map (render_cut n) ts) @ CHR '')'' # tail"

text \<open>The children of every node have distinct identities.\<close>

definition siblings_distinct :: "topo \<Rightarrow> bool" where
  "siblings_distinct t \<longleftrightarrow> (\<forall>u \<in> set (topo_nodes t). distinct (map identity (subtrees u)))"

fun is_branch :: "topo \<Rightarrow> bool" where
  "is_branch (Leaf i h) = False"
| "is_branch (Branch ts i h) = True"

definition forest_nodes :: "topo list \<Rightarrow> topo list" where
  "forest_nodes ts = concat (map topo_nodes ts)"

text \<open>The key under which the mapping of a node is stored.\<close>

definition key_of :: "topo \<Rightarrow> key" where
  "key_of t = Id (identity t)"

text \<open>
  The state of the store for a list of nodes: before linking, every branch has the mapping of
  its children with plain heights and no leaf is a key; after linking, every branch has the
  linked mapping of its children.
\<close>

definition plain_in :: "items \<Rightarrow> topo list \<Rightarrow> bool" where
  "plain_in S ns \<longleftrightarrow>
     (\<forall>u \<in> set ns. map_of S (key_of u) =
        (if is_branch u then Some (map plain_entry (subtrees u)) else None))"

definition linked_in :: "items \<Rightarrow> topo list \<Rightarrow> bool" where
  "linked_in S ns \<longleftrightarrow>
     (\<forall>u \<in> set ns. map_of S (key_of u) =
        (if is_branch u then Some (map linked_entry (subtrees u)) else None))"

definition same_outside :: "items \<Rightarrow> items \<Rightarrow> key set \<Rightarrow> bool" where
  "same_outside S S' K \<longleftrightarrow> (\<forall>x. x \<notin> K \<longrightarrow> map_of S' x = map_of S x)"

text \<open>Every binding of the store is the plain mapping of the trunk or of a branch.\<close>

definition sound :: "topo list \<Rightarrow> items \<Rightarrow> bool" where
  "sound ts S \<longleftrightarrow>
     (\<forall>k d. map_of S k = Some d \<longrightarrow>
        (k = Trunk \<and> d = map plain_entry ts) \<or>
        (\<exists>b \<in> set (forest_nodes ts). is_branch b \<and> k = key_of b \<and>
           d = map plain_entry (subtrees b)))"

section \<open>The topology string written on export\<close>

text \<open>
  Modelled from the spec: the method \<^verbatim>\<open>to_newick\<close> of \<^verbatim>\<open>Dendrogram\<close> and the text of a node
  (the property \<^verbatim>\<open>newick\<close> of \<^verbatim>\<open>Structure\<close>) are not part of the source at hand. The spec gives
  the encoding as the exact mirror of the decode path: the string that \<^verbatim>\<open>_parse_newick\<close> reads
  back. A node is written \<^verbatim>\<open>identity:height\<close>, a branch after the parenthesised,
  comma-separated list of its children, and the document is the parenthesised list of the nodes
  of the trunk followed by a colon. \<^verbatim>\<open>_parse_newick\<close> takes the identity of a group from the
  text between its closing parenthesis and the next colon, so the identity of a branch stands
  directly after the parenthesis. The identity is written in decimal. The text of the height
  of a node is not fixed by the spec, a node as built by the import records no height, and the
  text depends on the formatting of floating-point numbers: it is the parameter \<open>h\<close>.
\<close>

fun digits_of :: "nat \<Rightarrow> string" where
  "digits_of n =
     (if n < 10 then [''0123456789'' ! n]
      else digits_of (n div 10) @ [''0123456789'' ! (n mod 10)])"

declare digits_of.simps [simp del]

definition str_int :: "int \<Rightarrow> string" where
  "str_int i = (if i < 0 then CHR ''-'' # digits_of (nat (- i)) else digits_of (nat i))"



section \<open>\<^verbatim>\<open>dendro_export_hdf5\<close>\<close>


text \<open>
  The topology a node stands for, with the tokens that \<^verbatim>\<open>to_newick\<close> writes, and the nesting
  of a node.
\<close>

fun topo_of :: "(node \<Rightarrow> string) \<Rightarrow> node \<Rightarrow> topo" where
  "topo_of h (Structure a cs vs ch ix l) =
     (if ch = [] then Leaf (str_int ix) (h (Structure a cs vs ch ix l))
      else Branch (map (topo_of h) ch) (str_int ix) (h (Structure a cs vs ch ix l)))"

text \<open>A node and a topology of the same shape: the same identities, in the same order, and
  the same nodes being leaves.\<close>

fun fits :: "node \<Rightarrow> topo \<Rightarrow> bool" where
  "fits (Structure a cs vs ch ix l) (Leaf i h) \<longleftrightarrow> ch = [] \<and> identity (Leaf i h) = ix"
| "fits (Structure a cs vs ch ix l) (Branch ts i h) \<longleftrightarrow>
     ch \<noteq> [] \<and> identity (Branch ts i h) = ix \<and> list_all2 fits ch ts"



section \<open>The aggregation loop\<close>

lemma extend_Cons: "extend m (x # xs) = extend (extend m [x]) xs"
  by (cases m) auto

lemma parallel_dom:
  "parallel d (fl, ind) \<Longrightarrow> (map_of fl v = None) = (map_of ind v = None)"
  by (simp add: parallel_def)

lemma parallel_empty: "parallel d ([], [])"
  by (simp add: parallel_def)

lemma aggregate_parallel:
  "aggregate d coords t = Inr t' \<Longrightarrow> parallel d t \<Longrightarrow> parallel d t'"
proof (induction d coords t rule: aggregate.induct)
  case (1 d t)
  then show ?case by simp
next
  case (2 d coord rest fl ind)
  show ?case
  proof (cases "getitem (index_map d) coord")
    case (Inl e)
    with 2 show ?thesis by simp
  next
    case (Inr ix)
    show ?thesis
    proof (cases "ix = 0")
      case True
      with 2 Inr show ?thesis by simp
    next
      case False
      show ?thesis
      proof (cases "getitem (data d) coord")
        case (Inl e)
        with 2 Inr False show ?thesis by simp
      next
        case v: (Inr v)
        show ?thesis
        proof (cases "map_of fl ix")
          case None
          have "parallel d (AList.update ix [v] fl, AList.update ix [coord] ind)"
            using "2.prems"(2) v by (auto simp: parallel_def update_conv')
          with 2 Inr False v None show ?thesis by simp
        next
          case (Some fs)
          then obtain cs where cs: "map_of ind ix = Some cs"
            using parallel_dom[OF "2.prems"(2), of ix] by (cases "map_of ind ix") auto
          have "parallel d (AList.update ix (fs @ [v]) fl, AList.update ix (cs @ [coord]) ind)"
            using "2.prems"(2) v Some cs
            by (auto simp: parallel_def update_conv' list_all2_appendI)
          with 2 Inr False v Some cs show ?thesis by simp
        qed
      qed
    qed
  qed
qed

lemma aggregate_indices:
  "aggregate d coords t = Inr t' \<Longrightarrow> parallel d t \<Longrightarrow> v \<noteq> 0 \<Longrightarrow>
     map_of (snd t') v = extend (map_of (snd t) v) (labelled d coords v)"
proof (induction d coords t rule: aggregate.induct)
  case (1 d t)
  then show ?case by (cases "map_of (snd t) v") (auto simp: labelled_def)
next
  case (2 d coord rest fl ind)
  show ?case
  proof (cases "getitem (index_map d) coord")
    case (Inl e)
    with 2 show ?thesis by simp
  next
    case (Inr ix)
    show ?thesis
    proof (cases "ix = 0")
      case True
      with 2 Inr show ?thesis by (simp add: labelled_def)
    next
      case False
      show ?thesis
      proof (cases "getitem (data d) coord")
        case (Inl e)
        with 2 Inr False show ?thesis by simp
      next
        case x: (Inr x)
        show ?thesis
        proof (cases "map_of fl ix")
          case None
          then have ni: "map_of ind ix = None"
            using parallel_dom[OF "2.prems"(2), of ix] by simp
          let ?t = "(AList.update ix [x] fl, AList.update ix [coord] ind)"
          have p: "parallel d ?t"
            using "2.prems"(2) x by (auto simp: parallel_def update_conv')
          have a: "aggregate d rest ?t = Inr t'"
            using "2.prems"(1) Inr False x None by simp
          have "map_of (snd t') v = extend (map_of (snd ?t) v) (labelled d rest v)"
            using "2.IH"(1)[OF Inr False x None a p "2.prems"(3)] .
          then show ?thesis using Inr ni
            by (cases "map_of ind v") (auto simp: labelled_def update_conv')
        next
          case (Some fs)
          then obtain cs where cs: "map_of ind ix = Some cs"
            using parallel_dom[OF "2.prems"(2), of ix] by (cases "map_of ind ix") auto
          let ?t = "(AList.update ix (fs @ [x]) fl, AList.update ix (cs @ [coord]) ind)"
          have p: "parallel d ?t"
            using "2.prems"(2) x Some cs
            by (auto simp: parallel_def update_conv' list_all2_appendI)
          have a: "aggregate d rest ?t = Inr t'"
            using "2.prems"(1) Inr False x Some cs by simp
          have "map_of (snd t') v = extend (map_of (snd ?t) v) (labelled d rest v)"
            using "2.IH"(3)[OF Inr False x Some cs a p "2.prems"(3)] .
          then show ?thesis using Inr cs
            by (cases "map_of ind v") (auto simp: labelled_def update_conv')
        qed
      qed
    qed
  qed
qed

lemma aggregate_zero:
  "aggregate d coords t = Inr t' \<Longrightarrow> map_of (snd t') 0 = map_of (snd t) 0"
proof (induction d coords t rule: aggregate.induct)
  case (1 d t)
  then show ?case by simp
next
  case (2 d coord rest fl ind)
  then show ?case
    by (auto simp: update_conv' split: sum.splits if_splits option.splits)
qed

lemma aggregate_total:
  "\<forall>c \<in> set coords. (\<exists>x. getitem (index_map d) c = Inr x) \<and> (\<exists>x. getitem (data d) c = Inr x)
     \<Longrightarrow> \<exists>t'. aggregate d coords t = Inr t'"
proof (induction d coords t rule: aggregate.induct)
  case (1 d t)
  then show ?case by simp
next
  case (2 d coord rest fl ind)
  then show ?case
    by (auto split: sum.splits option.splits)
qed

lemma labelled_index_map: "index_map d = index_map d' \<Longrightarrow> labelled d = labelled d'"
  by (simp add: labelled_def fun_eq_iff)

lemma list_all2_map_eq:
  "list_all2 (\<lambda>x c. g c = Inr x) fs cs \<Longrightarrow> \<forall>c \<in> set cs. g c = Inr (h c) \<Longrightarrow> fs = map h cs"
  by (induction fs cs rule: list_all2_induct) auto

subsection \<open>The coordinates are visited in row-major order\<close>

lemma foldl_offset:
  "length c = length ns \<Longrightarrow>
     foldl (\<lambda>acc (n, i). acc * n + i) (a::nat) (zip ns c) =
     a * prod_list ns + foldl (\<lambda>acc (n, i). acc * n + i) 0 (zip ns c)"
proof (induction ns arbitrary: c a)
  case Nil
  then show ?case by simp
next
  case (Cons n ns)
  then obtain i c' where c: "c = i # c'" and l: "length c' = length ns"
    by (cases c) auto
  show ?case
    using Cons.IH[OF l, of "a * n + i"] Cons.IH[OF l, of i]
    by (simp add: c algebra_simps)
qed

lemma np_indices_length: "c \<in> set (np_indices shp) \<Longrightarrow> length c = length shp"
  by (induction shp arbitrary: c) auto

lemma np_indices_bounds: "c \<in> set (np_indices shp) \<Longrightarrow> list_all2 (<) c shp"
  by (induction shp arbitrary: c) auto

lemma offset_Cons:
  "length c = length ns \<Longrightarrow> offset (n # ns) (i # c) = i * prod_list ns + offset ns c"
  using foldl_offset[of c ns i] by (simp add: offset_def)

lemma concat_blocks:
  "concat (map (\<lambda>i. map (\<lambda>k. i * p + k) [0..<p]) [0..<n]) = [0..<n * p]"
proof (induction n)
  case 0
  then show ?case by simp
next
  case (Suc n)
  have "map (\<lambda>k. n * p + k) [0..<p] = [n * p..<n * p + p]"
    using map_add_upt[of "n * p" p] by (simp add: add.commute)
  moreover have "[0..<n * p + p] = [0..<n * p] @ [n * p..<n * p + p]"
    using upt_add_eq_append[of 0 "n * p" p] by simp
  moreover have "Suc n * p = n * p + p" by simp
  ultimately show ?case using Suc by (simp del: mult_Suc)
qed

lemma np_indices_row_major:
  "map (offset shp) (np_indices shp) = [0..<prod_list shp]"
proof (induction shp)
  case Nil
  then show ?case by (simp add: offset_def)
next
  case (Cons n ns)
  have "map (offset (n # ns)) (np_indices (n # ns)) =
        concat (map (\<lambda>i. map (\<lambda>c. offset (n # ns) (i # c)) (np_indices ns)) [0..<n])"
    by (simp add: map_concat comp_def)
  also have "\<dots> = concat (map (\<lambda>i. map (\<lambda>c. i * prod_list ns + offset ns c) (np_indices ns)) [0..<n])"
    by (simp add: offset_Cons np_indices_length cong: map_cong)
  also have "\<dots> = concat (map (\<lambda>i. map (\<lambda>k. i * prod_list ns + k) (map (offset ns) (np_indices ns))) [0..<n])"
    by (simp add: comp_def)
  also have "\<dots> = [0..<n * prod_list ns]"
    by (simp only: Cons.IH concat_blocks)
  finally show ?case by simp
qed

lemma np_indices_offset_less:
  "c \<in> set (np_indices shp) \<Longrightarrow> offset shp c < prod_list shp"
proof -
  assume "c \<in> set (np_indices shp)"
  then have "offset shp c \<in> set (map (offset shp) (np_indices shp))" by simp
  then show ?thesis by (simp only: np_indices_row_major) simp
qed

lemma getitem_np_indices:
  "c \<in> set (np_indices (shape a)) \<Longrightarrow> length (flat a) = prod_list (shape a) \<Longrightarrow>
     getitem a c = Inr (flat a ! offset (shape a) c)"
  by (simp add: getitem_def np_indices_length np_indices_bounds np_indices_offset_less)

section \<open>The store built by the parser\<close>

lemma lookup_Inr: "lookup m k = Inr v \<longleftrightarrow> map_of m k = Some v"
  by (simp add: lookup_def split: option.splits)

lemma set_update_subset: "set (AList.update k v al) \<subseteq> insert (k, v) (set al)"
  by (induction al) auto

lemma entry_Float: "entry t = Some (k, v) \<Longrightarrow> \<exists>h. v = Float h"
  by (auto simp: entry_def split: list.splits option.splits)

lemma entries_floats: "entries ts d = Some d' \<Longrightarrow> floats_only d \<Longrightarrow> floats_only d'"
proof (induction ts arbitrary: d)
  case Nil
  then show ?case by simp
next
  case (Cons t ts)
  from Cons.prems(1) obtain k v where e: "entry t = Some (k, v)"
    and r: "entries ts (AList.update k v d) = Some d'"
    by (auto split: option.splits)
  have "floats_only (AList.update k v d)"
    using entry_Float[OF e] Cons.prems(2) set_update_subset[of k v d]
    by (fastforce simp: floats_only_def)
  from Cons.IH[OF r this] show ?case .
qed

lemma eval_dict_floats: "eval_dict text = Inr d \<Longrightarrow> floats_only d"
  by (auto simp: eval_dict_def floats_only_def split: if_splits option.splits
      dest!: entries_floats)

lemma excise_floats:
  "excise pairs string items = Inr (string', items') \<Longrightarrow> store_floats items \<Longrightarrow>
     store_floats items'"
proof (induction pairs string items rule: excise.induct)
  case (1 string items)
  then show ?case by simp
next
  case (2 start e0 pairs string items)
  from "2.prems"(1) obtain k d where
    k: "branch_key (slice string (int e0 + 1) (find_from CHR '':'' e0 string)) = Inr k"
    and d: "eval_dict (slice string (int start + 1) (int e0)) = Inr d"
    and r: "excise pairs (take start string @ drop (Suc e0) string) (AList.update k d items)
              = Inr (string', items')"
    by (auto simp: Let_def split: sum.splits)
  have "store_floats (AList.update k d items)"
    using "2.prems"(2) eval_dict_floats[OF d] by (auto simp: store_floats_def update_conv')
  from "2.IH"[OF refl refl k d r this] show ?case .
qed

lemma levels_floats:
  "levels n string items start = Inr (string', items', start') \<Longrightarrow> store_floats items \<Longrightarrow>
     store_floats items'"
proof (induction n string items start rule: levels.induct)
  case (1 string items start)
  then show ?case by simp
next
  case (2 n string items start)
  from "2.prems"(1) obtain pairs start1 s1 i1 where
    f: "find_pairs (int (Suc n)) string 0 0 start [] = Inr (pairs, start1)"
    and e: "excise (rev pairs) string items = Inr (s1, i1)"
    and l: "levels n s1 i1 (if pairs = [] then start1 else Some (fst (hd pairs)))
              = Inr (string', items', start')"
    by (auto split: sum.splits prod.splits)
  from "2.IH"[OF f refl e refl l excise_floats[OF e "2.prems"(2)]] show ?case .
qed

lemma store_floats_own_keys: "store_floats items \<Longrightarrow> own_keys items"
  by (fastforce simp: store_floats_def floats_only_def own_keys_def)

lemma collect_own_keys:
  "collect n k items = Inr items' \<Longrightarrow> own_keys items \<Longrightarrow> own_keys items'"
  and "collect_loop n k rest items = Inr items' \<Longrightarrow> own_keys items \<Longrightarrow> own_keys items'"
proof (induction n k items and n k rest items arbitrary: items' and items'
    rule: collect_collect_loop.induct)
  case (1 k items)
  then show ?case by simp
next
  case (2 n k items)
  then show ?case by (auto split: sum.splits)
next
  case (3 n k items)
  then show ?case by simp
next
  case (4 n k item rest items)
  show ?case
  proof (cases "map_of items (Id item) \<noteq> None")
    case False
    with 4 show ?thesis by simp
  next
    case True
    from "4.prems"(1) True obtain items1 d v where
      c: "collect n (Id item) items = Inr items1"
      and ld: "lookup items1 k = Inr d" and lv: "lookup d item = Inr v"
      and r: "collect_loop n k rest
               (AList.update k (AList.update item (Pair item v) d) items1) = Inr items'"
      by (auto split: sum.splits)
    have o1: "own_keys items1" using "4.IH"(1)[OF True c "4.prems"(2)] .
    have "own_keys (AList.update k (AList.update item (Pair item v) d) items1)"
      unfolding own_keys_def
    proof (intro allI impI)
      fix k' dct ix j h
      assume m: "map_of (AList.update k (AList.update item (Pair item v) d) items1) k' = Some dct"
        and i: "(ix, Pair j h) \<in> set dct"
      show "j = ix"
      proof (cases "k' = k")
        case False
        then have "map_of items1 k' = Some dct" using m by (simp add: update_conv')
        with o1 i show ?thesis unfolding own_keys_def by blast
      next
        case True
        then have "dct = AList.update item (Pair item v) d" using m by (simp add: update_conv')
        then have "(ix, Pair j h) = (item, Pair item v) \<or> (ix, Pair j h) \<in> set d"
          using i set_update_subset[of item "Pair item v" d] by auto
        moreover have "map_of items1 k = Some d" using ld by (simp add: lookup_Inr)
        ultimately show ?thesis using o1 unfolding own_keys_def by blast
      qed
    qed
    from "4.IH"(2)[OF True c ld lv r this] show ?thesis .
  qed
qed

lemma parse_newick_own_keys:
  "parse_newick depth string = Inr (repr, items) \<Longrightarrow> own_keys items"
proof -
  assume p: "parse_newick depth string = Inr (repr, items)"
  then obtain s1 i1 st1 where
    l: "levels (nat (find_max_level string)) string [] None = Inr (s1, i1, st1)"
    and c: "collect depth Trunk i1 = Inr items"
    by (auto simp: parse_newick_def split: sum.splits prod.splits)
  have "store_floats []" by (simp add: store_floats_def)
  from levels_floats[OF l this] have "own_keys i1" by (rule store_floats_own_keys)
  from collect_own_keys(1)[OF c this] show ?thesis .
qed

lemma parse_newick_trunk:
  "parse_newick depth string = Inr (repr, items) \<Longrightarrow> map_of items Trunk = Some repr"
  by (auto simp: parse_newick_def lookup_Inr split: sum.splits prod.splits)

lemma find_pairs_no_close:
  "CHR '')'' \<notin> set s \<Longrightarrow> \<exists>st'. find_pairs lv s i cur st ps = Inr (ps, st')"
  by (induction s arbitrary: i cur st) auto

lemma levels_no_close:
  "CHR '')'' \<notin> set s \<Longrightarrow> \<exists>st'. levels n s items st = Inr (s, items, st')"
proof (induction n arbitrary: st)
  case 0
  then show ?case by simp
next
  case (Suc n)
  from find_pairs_no_close[OF Suc.prems, of "int (Suc n)" 0 0 st "[]"]
  obtain st1 where "find_pairs (int (Suc n)) s 0 0 st [] = Inr ([], st1)" by blast
  then show ?case using Suc.IH[OF Suc.prems, of st1] by simp
qed

lemma parse_newick_no_close:
  "CHR '')'' \<notin> set s \<Longrightarrow> parse_newick depth s = Inl KeyError"
proof -
  assume "CHR '')'' \<notin> set s"
  from levels_no_close[OF this, of "nat (find_max_level s)" "[]" None]
  show ?thesis by (auto simp: parse_newick_def lookup_def)
qed

section \<open>The nodes built from the store\<close>

lemma all_nodes_append: "all_nodes (xs @ ys) = all_nodes xs @ all_nodes ys"
  by (simp add: all_nodes_def)

lemma all_nodes_single:
  "all_nodes [Structure a cs vs ch ix l] = Structure a cs vs ch ix l # all_nodes ch"
  by (simp add: all_nodes_def)

lemma all_nodes_Nil: "all_nodes [] = []"
  by (simp add: all_nodes_def)

lemma node_sel_set_level [simp]:
  "idx (set_level l n) = idx n" "indices (set_level l n) = indices n"
  "vals (set_level l n) = vals n" "children (set_level l n) = children n"
  "addr (set_level l n) = addr n" "level (set_level l n) = Some l"
  by (cases n; simp)+

lemma descendants_unfold: "descendants n = n # all_nodes (children n)"
  by (cases n) (simp add: all_nodes_def)

lemma all_nodes_Cons: "all_nodes (n # ns) = n # all_nodes (children n) @ all_nodes ns"
  by (simp add: all_nodes_def descendants_unfold)

lemma all_nodes_set_level:
  "m \<in> set (all_nodes (map (set_level l) ns)) \<Longrightarrow>
     \<exists>m' \<in> set (all_nodes ns). m = m' \<or> m = set_level l m'"
  by (induction ns) (auto simp: all_nodes_Nil all_nodes_Cons)

lemma built_set_level: "built t items (set_level l n) = built t items n"
  by (simp add: built_def)

lemma construct_built:
  "construct_tree n t items k st = Inr (nodes, st') \<Longrightarrow> own_keys items \<Longrightarrow>
     (\<forall>m \<in> set (all_nodes nodes). built t items m) \<and>
     (\<forall>repr. map_of items k = Some repr \<longrightarrow> map idx nodes = map fst repr)"
  and
  "construct_loop n t items repr acc st = Inr (nodes, st') \<Longrightarrow> own_keys items \<Longrightarrow>
     \<exists>k dct. map_of items k = Some dct \<and> set repr \<subseteq> set dct \<Longrightarrow>
     \<forall>m \<in> set (all_nodes acc). built t items m \<Longrightarrow>
     (\<forall>m \<in> set (all_nodes nodes). built t items m) \<and>
     map idx nodes = map idx acc @ map fst repr"
proof (induction n t items k st and n t items repr acc st arbitrary: nodes st' and nodes st'
    rule: construct_tree_construct_loop.induct)
  case (1 t items k st)
  then show ?case by simp
next
  case (2 n t items k st)
  from "2.prems"(1) obtain repr where r: "lookup items k = Inr repr"
    and c: "construct_loop n t items repr [] st = Inr (nodes, st')"
    by (auto split: sum.splits)
  have m: "map_of items k = Some repr" using r by (simp add: lookup_Inr)
  have "\<exists>k dct. map_of items k = Some dct \<and> set repr \<subseteq> set dct" using m by blast
  from "2.IH"[OF r c "2.prems"(2) this] m show ?case by (simp add: all_nodes_Nil)
next
  case (3 n t items nodes0 st)
  then show ?case by simp
next
  case (4 n t items ix v rest acc st)
  from "4.prems"(1) obtain node_indices f where
    ni: "lookup (snd t) ix = Inr node_indices" and fl: "lookup (fst t) ix = Inr f"
    by (auto split: sum.splits)
  from "4.prems"(3) obtain k0 dct0 where k0: "map_of items k0 = Some dct0"
    and sub: "set ((ix, v) # rest) \<subseteq> set dct0" by blast
  have ident: "ix \<in> identities items"
    using k0 sub by (auto simp: identities_def)
  have rest: "\<exists>k dct. map_of items k = Some dct \<and> set rest \<subseteq> set dct"
    using k0 sub by auto
  show ?case
  proof (cases v)
    case (Float h)
    let ?l = "Structure (fst st) node_indices f [] ix None"
    have c: "construct_loop n t items rest (acc @ [?l])
               (Suc (fst st), AList.update ix (fst st) (snd st)) = Inr (nodes, st')"
      using "4.prems"(1) ni fl Float by simp
    have b: "built t items ?l"
      using ni fl ident by (simp add: built_def lookup_Inr)
    have "\<forall>m \<in> set (all_nodes (acc @ [?l])). built t items m"
      using "4.prems"(4) b by (auto simp: all_nodes_append all_nodes_single all_nodes_Nil)
    from "4.IH"(1)[OF ni fl Float c "4.prems"(2) rest this] show ?thesis by simp
  next
    case (Pair j h)
    have "(ix, Pair j h) \<in> set dct0" using sub Pair by simp
    then have jx: "j = ix"
      using "4.prems"(2) k0 unfolding own_keys_def by blast
    from "4.prems"(1) ni fl Pair obtain sub_nodes nxt nd sub_repr where
      ct: "construct_tree n t items (Id j) st = Inr (sub_nodes, (nxt, nd))"
      and sr: "lookup items (Id j) = Inr sub_repr" and ne: "sub_repr \<noteq> []"
      and c: "construct_loop n t items rest
               (acc @ [Structure nxt node_indices f sub_nodes ix None])
               (Suc nxt, AList.update ix nxt (register sub_nodes nd)) = Inr (nodes, st')"
      by (auto split: sum.splits if_splits prod.splits)
    let ?b = "Structure nxt node_indices f sub_nodes ix None"
    from "4.IH"(2)[OF ni fl Pair ct "4.prems"(2)]
    have s1: "\<forall>m \<in> set (all_nodes sub_nodes). built t items m"
      and s2: "map idx sub_nodes = map fst sub_repr"
      using sr by (simp_all add: lookup_Inr)
    have b: "built t items ?b"
      using ni fl ident sr s2 jx by (simp add: built_def lookup_Inr)
    have "\<forall>m \<in> set (all_nodes (acc @ [?b])). built t items m"
      using "4.prems"(4) b s1 by (auto simp: all_nodes_append all_nodes_single)
    from "4.IH"(3)[OF ni fl Pair ct refl refl sr ne c "4.prems"(2) rest this]
    show ?thesis by simp
  qed
qed

section \<open>The import as a whole\<close>

lemma import_parts:
  assumes "dendro_import_hdf5 depth f = Inr d"
  obtains t repr items nodes st' where
    "aggregate (fresh f) (np_indices (shape (ds_data f))) ([], []) = Inr t"
    "parse_newick depth (ds_newick f) = Inr (repr, items)"
    "construct_tree depth t items Trunk (0, []) = Inr (nodes, st')"
    "trunk d = map (set_level 0) nodes" "data d = ds_data f" "index_map d = ds_index_map f"
  using assms
  by (auto simp: dendro_import_hdf5_def fresh_def Let_def split: sum.splits prod.splits)

lemma import_built:
  assumes "dendro_import_hdf5 depth f = Inr d" "m \<in> set (all_nodes (trunk d))"
  obtains t repr items where
    "aggregate (fresh f) (np_indices (shape (ds_data f))) ([], []) = Inr t"
    "parse_newick depth (ds_newick f) = Inr (repr, items)"
    "built t items m"
proof -
  from assms(1) obtain t repr items nodes st' where
    a: "aggregate (fresh f) (np_indices (shape (ds_data f))) ([], []) = Inr t"
    and p: "parse_newick depth (ds_newick f) = Inr (repr, items)"
    and c: "construct_tree depth t items Trunk (0, []) = Inr (nodes, st')"
    and tr: "trunk d = map (set_level 0) nodes"
    by (rule import_parts)
  from construct_built(1)[OF c parse_newick_own_keys[OF p]]
  have b: "\<forall>m \<in> set (all_nodes nodes). built t items m" by simp
  from assms(2) tr obtain m' where "m' \<in> set (all_nodes nodes)" "m = m' \<or> m = set_level 0 m'"
    using all_nodes_set_level by metis
  with b have "built t items m" by (auto simp: built_set_level)
  with a p show ?thesis by (rule that)
qed

lemma node_owns_label:
  assumes "dendro_import_hdf5 depth f = Inr d" and "m \<in> set (all_nodes (trunk d))"
  shows "indices m = labelled d (np_indices (shape (data d))) (idx m) \<and> indices m \<noteq> [] \<and>
         list_all2 (\<lambda>x c. getitem (data d) c = Inr x) (vals m) (indices m)"
proof -
  let ?cs = "np_indices (shape (ds_data f))"
  from assms obtain t repr items where
    a: "aggregate (fresh f) ?cs ([], []) = Inr t" and b: "built t items m"
    by (rule import_built)
  from assms(1) have dd: "data d = ds_data f" "index_map d = ds_index_map f"
    by (auto elim: import_parts)
  have par: "parallel (fresh f) t" using aggregate_parallel[OF a parallel_empty] .
  have i: "map_of (snd t) (idx m) = Some (indices m)" and v: "map_of (fst t) (idx m) = Some (vals m)"
    using b by (simp_all add: built_def)
  have "map_of (snd t) 0 = None" using aggregate_zero[OF a] by simp
  with i have nz: "idx m \<noteq> 0" by auto
  have "map_of (snd t) (idx m) = extend None (labelled (fresh f) ?cs (idx m))"
    using aggregate_indices[OF a parallel_empty nz] by simp
  with i have l: "labelled (fresh f) ?cs (idx m) = indices m" "indices m \<noteq> []"
    by (auto split: if_splits)
  have "labelled d = labelled (fresh f)" by (rule labelled_index_map) (simp add: dd fresh_def)
  moreover have "list_all2 (\<lambda>x c. getitem (data (fresh f)) c = Inr x) (vals m) (indices m)"
    using par i v unfolding parallel_def by blast
  ultimately show ?thesis using l dd by (simp add: fresh_def)
qed

section \<open>Properties of the parser\<close>

lemma find_pairs_before_open:
  "CHR ''('' \<notin> set a \<Longrightarrow> cur < lv \<Longrightarrow>
     \<exists>cur'. cur' \<le> cur \<and>
       find_pairs lv (a @ b) i cur st ps = find_pairs lv b (i + length a) cur' st ps"
proof (induction a arbitrary: i cur)
  case Nil
  then show ?case by auto
next
  case (Cons c a)
  from Cons.prems have a: "CHR ''('' \<notin> set a" and c: "c \<noteq> CHR ''(''" by auto
  show ?case
  proof (cases "c = CHR '')''")
    case True
    from Cons.IH[OF a, of "cur - 1" "Suc i"] Cons.prems(2) obtain cur' where
      "cur' \<le> cur - 1"
      "find_pairs lv (a @ b) (Suc i) (cur - 1) st ps = find_pairs lv b (Suc i + length a) cur' st ps"
      by auto
    with True Cons.prems(2) show ?thesis by (intro exI[of _ cur']) auto
  next
    case False
    from Cons.IH[OF a Cons.prems(2), of "Suc i"] obtain cur' where
      "cur' \<le> cur"
      "find_pairs lv (a @ b) (Suc i) cur st ps = find_pairs lv b (Suc i + length a) cur' st ps"
      by auto
    with False c show ?thesis by (intro exI[of _ cur']) auto
  qed
qed

lemma find_pairs_no_group:
  assumes "no_group s" and "0 < lv"
  shows "\<exists>st'. find_pairs lv s 0 0 st [] = Inr ([], st')"
proof -
  let ?a = "takeWhile (\<lambda>c. c \<noteq> CHR ''('') s" and ?b = "dropWhile (\<lambda>c. c \<noteq> CHR ''('') s"
  have a: "CHR ''('' \<notin> set ?a" by (auto dest: set_takeWhileD)
  have b: "CHR '')'' \<notin> set ?b" using assms(1) by (simp add: no_group_def)
  from find_pairs_before_open[OF a assms(2), of ?b 0 st "[]"] obtain cur' where
    "find_pairs lv (?a @ ?b) 0 0 st [] = find_pairs lv ?b (0 + length ?a) cur' st []"
    by blast
  moreover from find_pairs_no_close[OF b, of lv "0 + length ?a" cur' st "[]"]
  obtain st' where "find_pairs lv ?b (0 + length ?a) cur' st [] = Inr ([], st')" by blast
  ultimately show ?thesis by simp
qed

lemma levels_no_group:
  "no_group s \<Longrightarrow> \<exists>st'. levels n s items st = Inr (s, items, st')"
proof (induction n arbitrary: st)
  case 0
  then show ?case by simp
next
  case (Suc n)
  from find_pairs_no_group[OF Suc.prems, of "int (Suc n)" st]
  obtain st1 where "find_pairs (int (Suc n)) s 0 0 st [] = Inr ([], st1)" by auto
  then show ?case using Suc.IH[OF Suc.prems, of st1] by simp
qed

text \<open>
  Claim C10. In a string without a parenthesised group, where no closing parenthesis stands
  after an opening one, the loop over the levels finds no span at any level, whatever the
  maximum level is: a closing parenthesis is met at a level below 1 only. Nothing is stored in
  \<^verbatim>\<open>items\<close>, and the lookup \<^verbatim>\<open>items['trunk']\<close> raises \<^verbatim>\<open>KeyError\<close>: \<^verbatim>\<open>_parse_newick\<close> returns no
  value. This covers the empty string and every string without an opening parenthesis.
\<close>

theorem parse_newick_no_group:
  "no_group string \<Longrightarrow> parse_newick depth string = Inl KeyError"
proof -
  assume "no_group string"
  from levels_no_group[OF this, of "nat (find_max_level string)" "[]" None]
  show ?thesis by (auto simp: parse_newick_def lookup_def)
qed

theorem parse_newick_no_group_witness:
  "no_group '')1:2.0('' \<and> parse_newick 1000 '')1:2.0('' = Inl KeyError \<and>
   no_group ''(1:2.0'' \<and> parse_newick 1000 ''(1:2.0'' = Inl KeyError \<and>
   no_group ''1:2.0,2:3.0):'' \<and> parse_newick 1000 ''1:2.0,2:3.0):'' = Inl KeyError \<and>
   no_group '''' \<and> parse_newick 1000 '''' = Inl KeyError"
proof -
  have 1: "no_group '')1:2.0(''" and 2: "no_group ''(1:2.0''"
    and 3: "no_group ''1:2.0,2:3.0):''" and 4: "no_group ''''"
    by (simp_all add: no_group_def)
  from parse_newick_no_group[OF 1, of 1000] parse_newick_no_group[OF 2, of 1000]
    parse_newick_no_group[OF 3, of 1000] parse_newick_no_group[OF 4, of 1000] 1 2 3 4
  show ?thesis by simp
qed

section \<open>The claims\<close>

lemma import_branch_file: "dendro_import_hdf5 1000 branch_file = Inr branch_dendrogram"
  by code_simp

lemma branch_node_in_trunk: "branch_node \<in> set (all_nodes (trunk branch_dendrogram))"
  by (simp add: branch_dendrogram_def all_nodes_def branch_node_def)

subsection \<open>Scenario B\<close>

text \<open>
  Claim C1, as stated, fails: on the string \<^verbatim>\<open>((1:1.0,2:1.5):3:4.0):\<close> the parser reads the
  identity of a group between its closing parenthesis and the next colon, finds the empty
  string, stores the inner group under \<^verbatim>\<open>'trunk'\<close>, and at level 1 evaluates the text
  \<^verbatim>\<open>{:3:4.0}\<close>, a syntax error.
\<close>

theorem scenario_B_counterexample:
  "dendro_import_hdf5 1000
     (file1d [1/2, 3/4, 1, 5/4] [1, 1, 2, 2] ''((1:1.0,2:1.5):3:4.0):'') = Inl SyntaxError"
  by code_simp

text \<open>
  Claim C1, amended. The identity of a group follows its closing parenthesis directly, and a
  branch needs pixels of its own. Decoding \<^verbatim>\<open>((1:1.0,2:1.5)3:4.0):\<close> with the labels
  \<open>[1,1,2,2,3]\<close> and any data succeeds with exactly one root: the branch 3, which owns the
  coordinate \<open>(4,)\<close> and whose children are the leaves 1 and 2, owning \<open>(0,), (1,)\<close> and
  \<open>(2,), (3,)\<close>; the parsed topology holds the height 4.0 for identity 3. With the labels
  \<open>[1,1,2,2]\<close> the same string raises \<^verbatim>\<open>KeyError\<close>, since no pixel is labelled 3.
\<close>

theorem scenario_B_amended:
  "dendro_import_hdf5 1000
     (file1d [x0, x1, x2, x3, x4] [1, 1, 2, 2, 3] ''((1:1.0,2:1.5)3:4.0):'') =
   Inr \<lparr>n_dim = 1, data = \<lparr>shape = [5], flat = [x0, x1, x2, x3, x4]\<rparr>,
        index_map = \<lparr>shape = [5], flat = [1, 1, 2, 2, 3]\<rparr>,
        nodes_dict = [(1, 0), (2, 1), (3, 2)],
        trunk =
          [Structure 2 [[4]] [x4]
            [Structure 0 [[0], [1]] [x0, x1] [] 1 None,
             Structure 1 [[2], [3]] [x2, x3] [] 2 None]
            3 (Some 0)]\<rparr> \<and>
   parse_newick 1000 ''((1:1.0,2:1.5)3:4.0):'' =
   Inr ([(3, Pair 3 (Float 4))],
        [(Id 3, [(1, Float 1), (2, Float (3/2))]), (Trunk, [(3, Pair 3 (Float 4))])]) \<and>
   dendro_import_hdf5 1000
     (file1d [x0, x1, x2, x3] [1, 1, 2, 2] ''((1:1.0,2:1.5)3:4.0):'') = Inl KeyError"
  by code_simp

subsection \<open>Ownership\<close>

text \<open>
  Claim C2, as stated, fails: the branch 3 of the example owns the pixel \<open>(0,)\<close>, which is
  labelled 3.
\<close>

theorem branch_owns_pixels_counterexample:
  "map_sum id trunk
     (dendro_import_hdf5 1000 (file1d [7/2, 1, 2] [3, 1, 2] ''((1:1.0,2:1.5)3:4.0);'')) =
   Inr [Structure 2 [[0]] [7/2]
          [Structure 0 [[1]] [1] [] 1 None, Structure 1 [[2]] [2] [] 2 None]
          3 (Some 0)]"
  by code_simp

text \<open>
  Claim C2, amended. \<^verbatim>\<open>_construct_tree\<close> gives every node, branch or leaf, the table entries
  of its identity. So for every input on which the import succeeds, every node owns exactly the
  coordinates labelled with its identity, in row-major order, with the data values at these
  coordinates in the same order; this list is never empty, for a branch as for a leaf.
\<close>

theorem every_node_owns_its_label:
  assumes "dendro_import_hdf5 depth f = Inr d" and "m \<in> set (all_nodes (trunk d))"
  shows "indices m = labelled d (np_indices (shape (data d))) (idx m) \<and> indices m \<noteq> [] \<and>
         list_all2 (\<lambda>x c. getitem (data d) c = Inr x) (vals m) (indices m)"
  using assms by (rule node_owns_label)

theorem every_node_owns_its_label_witness:
  "dendro_import_hdf5 1000 branch_file = Inr branch_dendrogram \<and>
   branch_node \<in> set (all_nodes (trunk branch_dendrogram)) \<and>
   children branch_node \<noteq> [] \<and>
   indices branch_node =
     labelled branch_dendrogram (np_indices (shape (data branch_dendrogram))) (idx branch_node) \<and>
   indices branch_node = [[4]]"
  using every_node_owns_its_label[OF import_branch_file branch_node_in_trunk]
    import_branch_file branch_node_in_trunk
  by (simp add: branch_node_def)

subsection \<open>Labels absent from the topology\<close>

text \<open>
  Claim C3, as stated, fails: the import compares the labels with the topology nowhere. With
  the labels \<open>[1,1,3,2,2,2]\<close> and the topology \<^verbatim>\<open>(1:2.0,2:3.0):\<close> it returns the two leaves,
  and the pixel \<open>(2,)\<close>, labelled 3, belongs to no node.
\<close>

theorem unlisted_label_counterexample:
  "map_sum id trunk
     (dendro_import_hdf5 1000
        (file1d [1/2, 1, 3/2, 2, 5/2, 3] [1, 1, 3, 2, 2, 2] ''(1:2.0,2:3.0):'')) =
   Inr [Structure 0 [[0], [1]] [1/2, 1] [] 1 (Some 0),
        Structure 1 [[3], [4], [5]] [2, 5/2, 3] [] 2 (Some 0)]"
  by code_simp

text \<open>
  Claim C3, amended. Where the import succeeds, every node has an identity of the parsed
  topology, so a pixel whose label is not an identity of the topology is owned by no node of the
  result: it is dropped without an error.
\<close>

theorem unlisted_label_dropped:
  assumes "dendro_import_hdf5 depth f = Inr d"
    and "parse_newick depth (ds_newick f) = Inr (repr, items)"
    and "v \<notin> identities items"
    and "getitem (index_map d) c = Inr v"
    and "m \<in> set (all_nodes (trunk d))"
  shows "c \<notin> set (indices m)"
proof
  assume c: "c \<in> set (indices m)"
  from assms(1,5) obtain t repr' items' where
    p: "parse_newick depth (ds_newick f) = Inr (repr', items')" and b: "built t items' m"
    by (rule import_built)
  from p assms(2) have "items' = items" by simp
  with b have "idx m \<in> identities items" by (simp add: built_def)
  moreover from node_owns_label[OF assms(1,5)] c
  have "getitem (index_map d) c = Inr (idx m)" by (simp add: labelled_def)
  ultimately show False using assms(3,4) by simp
qed

theorem unlisted_label_dropped_witness:
  "dendro_import_hdf5 1000 leaves_file = Inr leaves_dendrogram \<and>
   parse_newick 1000 (ds_newick leaves_file) =
     Inr ([(1, Float 2), (2, Float 3)], [(Trunk, [(1, Float 2), (2, Float 3)])]) \<and>
   7 \<notin> identities [(Trunk, [(1, Float 2), (2, Float 3)])] \<and>
   getitem (index_map leaves_dendrogram) [2] = Inr 7 \<and>
   hd (trunk leaves_dendrogram) \<in> set (all_nodes (trunk leaves_dendrogram)) \<and>
   [2] \<notin> set (indices (hd (trunk leaves_dendrogram)))"
proof -
  have h1: "dendro_import_hdf5 1000 leaves_file = Inr leaves_dendrogram"
    by code_simp
  have h2: "parse_newick 1000 (ds_newick leaves_file) =
     Inr ([(1, Float 2), (2, Float 3)], [(Trunk, [(1, Float 2), (2, Float 3)])])"
    by code_simp
  have h3: "7 \<notin> identities [(Trunk, [(1, Float 2), (2, Float 3)])]"
    by (auto simp: identities_def split: if_splits)
  have h4: "getitem (index_map leaves_dendrogram) [2] = Inr 7"
    by code_simp
  have h5: "hd (trunk leaves_dendrogram) \<in> set (all_nodes (trunk leaves_dendrogram))"
    by (simp add: leaves_dendrogram_def all_nodes_def)
  from unlisted_label_dropped[OF h1 h2 h3 h4 h5] h1 h2 h3 h4 h5 show ?thesis by blast
qed

subsection \<open>The aggregation loop\<close>

text \<open>
  Claim C5. For arrays of one shape the coordinates are visited once each in row-major order
  (their offsets are \<open>0, 1, 2, \<dots>\<close>), the loop succeeds, and the tables it returns hold under every
  non-zero label that occurs the coordinates with that label in the order of the traversal and,
  position by position, the data values at these coordinates; the label 0 and the labels that do
  not occur have no entry. Scenario A: \<^verbatim>\<open>(1:2.0,2:3.0):\<close> with the labels \<open>[1,1,0,2,2,2]\<close>
  yields two root leaves, leaf 1 owning \<open>(0,), (1,)\<close> and leaf 2 owning \<open>(3,), (4,), (5,)\<close>.
\<close>

theorem aggregate_row_major:
  assumes "shape (index_map d) = shape (data d)"
    and "length (flat (data d)) = prod_list (shape (data d))"
    and "length (flat (index_map d)) = prod_list (shape (data d))"
  shows "map (offset (shape (data d))) (np_indices (shape (data d))) =
           [0..<prod_list (shape (data d))] \<and>
         (\<exists>flux ind. aggregate d (np_indices (shape (data d))) ([], []) = Inr (flux, ind) \<and>
            (\<forall>v. map_of ind v =
                   (if v = 0 \<or> labelled d (np_indices (shape (data d))) v = [] then None
                    else Some (labelled d (np_indices (shape (data d))) v)) \<and>
                 map_of flux v =
                   map_option (map (\<lambda>c. flat (data d) ! offset (shape (data d)) c))
                     (map_of ind v))) \<and>
         map_sum id trunk
           (dendro_import_hdf5 1000
              (file1d [x0, x1, x2, x3, x4, x5] [1, 1, 0, 2, 2, 2] ''(1:2.0,2:3.0):'')) =
           Inr [Structure 0 [[0], [1]] [x0, x1] [] 1 (Some 0),
                Structure 1 [[3], [4], [5]] [x3, x4, x5] [] 2 (Some 0)]"
proof -
  let ?cs = "np_indices (shape (data d))"
  have gi: "getitem (index_map d) c = Inr (flat (index_map d) ! offset (shape (data d)) c)"
    if "c \<in> set ?cs" for c
    using getitem_np_indices[of c "index_map d"] that assms by simp
  have gd: "getitem (data d) c = Inr (flat (data d) ! offset (shape (data d)) c)"
    if "c \<in> set ?cs" for c
    using getitem_np_indices[of c "data d"] that assms by simp
  have "\<exists>t'. aggregate d ?cs ([], []) = Inr t'"
    by (rule aggregate_total) (use gi gd in auto)
  then obtain flux ind where a: "aggregate d ?cs ([], []) = Inr (flux, ind)"
    by (cases) auto
  have par: "parallel d (flux, ind)" using aggregate_parallel[OF a parallel_empty] .
  have z: "map_of ind 0 = None" using aggregate_zero[OF a] by simp
  have nz: "map_of ind v = extend None (labelled d ?cs v)" if "v \<noteq> 0" for v
    using aggregate_indices[OF a parallel_empty that] by simp
  have i: "map_of ind v = (if v = 0 \<or> labelled d ?cs v = [] then None
                           else Some (labelled d ?cs v))" for v
    using z nz[of v] by (cases "v = 0") auto
  have fl: "map_of flux v =
              map_option (map (\<lambda>c. flat (data d) ! offset (shape (data d)) c)) (map_of ind v)"
    for v
  proof (cases "map_of ind v")
    case None
    then show ?thesis using parallel_dom[OF par, of v] by simp
  next
    case (Some cs)
    then obtain fs where fs: "map_of flux v = Some fs"
      using parallel_dom[OF par, of v] by (cases "map_of flux v") auto
    have l: "list_all2 (\<lambda>x c. getitem (data d) c = Inr x) fs cs"
      using par fs Some unfolding parallel_def by auto
    have "cs = labelled d ?cs v" using Some i[of v] by (auto split: if_splits)
    then have "set cs \<subseteq> set ?cs" by (auto simp: labelled_def)
    then have "\<forall>c \<in> set cs. getitem (data d) c = Inr (flat (data d) ! offset (shape (data d)) c)"
      using gd by auto
    from list_all2_map_eq[OF l this] show ?thesis using fs Some by simp
  qed
  have sc: "map_sum id trunk
           (dendro_import_hdf5 1000
              (file1d [x0, x1, x2, x3, x4, x5] [1, 1, 0, 2, 2, 2] ''(1:2.0,2:3.0):'')) =
           Inr [Structure 0 [[0], [1]] [x0, x1] [] 1 (Some 0),
                Structure 1 [[3], [4], [5]] [x3, x4, x5] [] 2 (Some 0)]"
    by code_simp
  show ?thesis using np_indices_row_major a i fl sc by blast
qed

theorem aggregate_row_major_witness:
  "shape (index_map grid) = shape (data grid) \<and>
   length (flat (data grid)) = prod_list (shape (data grid)) \<and>
   length (flat (index_map grid)) = prod_list (shape (data grid)) \<and>
   np_indices (shape (data grid)) = [[0, 0], [0, 1], [0, 2], [1, 0], [1, 1], [1, 2]] \<and>
   map (offset (shape (data grid))) (np_indices (shape (data grid))) = [0, 1, 2, 3, 4, 5] \<and>
   aggregate grid (np_indices (shape (data grid))) ([], []) =
     Inr ([(5, [1, 5, 6]), (- 1, [4])], [(5, [[0, 0], [1, 1], [1, 2]]), (- 1, [[1, 0]])])"
proof -
  have h1: "shape (index_map grid) = shape (data grid)"
    and h2: "length (flat (data grid)) = prod_list (shape (data grid))"
    and h3: "length (flat (index_map grid)) = prod_list (shape (data grid))"
    by (simp_all add: grid_def)
  have c: "np_indices (shape (data grid)) = [[0, 0], [0, 1], [0, 2], [1, 0], [1, 1], [1, 2]]"
    by code_simp
  have a: "aggregate grid (np_indices (shape (data grid))) ([], []) =
     Inr ([(5, [1, 5, 6]), (- 1, [4])], [(5, [[0, 0], [1, 1], [1, 2]]), (- 1, [[1, 0]])])"
    by code_simp
  have "prod_list (shape (data grid)) = 6" by (simp add: grid_def)
  moreover have "[0..<6] = [0, 1, 2, 3, 4, 5::nat]" by code_simp
  ultimately show ?thesis
    using aggregate_row_major[OF h1 h2 h3] h1 h2 h3 c a by simp
qed

subsection \<open>Unbalanced parentheses\<close>

text \<open>
  Claim C6, as stated, fails: the parser checks the balance of the parentheses nowhere. In
  \<^verbatim>\<open>((1:2.0,2:3.0):\<close> the first parenthesis is never closed; the group at level 2 is stored
  under \<^verbatim>\<open>'trunk'\<close>, level 1 has no span, and the import returns two root leaves.
\<close>

theorem unmatched_open_counterexample:
  "map_sum id trunk
     (dendro_import_hdf5 1000 (file1d [1/2, 1, 3/2, 2] [1, 1, 2, 2] ''((1:2.0,2:3.0):'')) =
   Inr [Structure 0 [[0], [1]] [1/2, 1] [] 1 (Some 0),
        Structure 1 [[2], [3]] [3/2, 2] [] 2 (Some 0)]"
  by code_simp

text \<open>
  Claim C6, amended. An error of the parser is the error of the import: it is raised after
  the aggregation loop and before any node is built, and no dendrogram is returned. A string
  with opening parentheses none of which is closed (no closing parenthesis at all) is such a
  case: the parser raises \<^verbatim>\<open>KeyError\<close> at \<^verbatim>\<open>items['trunk']\<close>.
\<close>

theorem parse_error_before_construction:
  assumes "aggregate (fresh f) (np_indices (shape (ds_data f))) ([], []) = Inr t"
  shows "(parse_newick depth (ds_newick f) = Inl e \<longrightarrow> dendro_import_hdf5 depth f = Inl e) \<and>
         (CHR '')'' \<notin> set (ds_newick f) \<longrightarrow> dendro_import_hdf5 depth f = Inl KeyError)"
  using assms parse_newick_no_close[of "ds_newick f" depth]
  by (auto simp: dendro_import_hdf5_def fresh_def Let_def)

theorem parse_error_before_construction_witness:
  "aggregate (fresh (file1d [1/2, 1, 3/2, 2] [1, 1, 2, 2] ''((1:2.0,2:3.0''))
     (np_indices (shape (ds_data (file1d [1/2, 1, 3/2, 2] [1, 1, 2, 2] ''((1:2.0,2:3.0'')))) ([], [])
     = Inr ([(1, [1/2, 1]), (2, [3/2, 2])], [(1, [[0], [1]]), (2, [[2], [3]])]) \<and>
   CHR '')'' \<notin> set (ds_newick (file1d [1/2, 1, 3/2, 2] [1, 1, 2, 2] ''((1:2.0,2:3.0'')) \<and>
   parse_newick 1000 (ds_newick (file1d [1/2, 1, 3/2, 2] [1, 1, 2, 2] ''((1:2.0,2:3.0''))
     = Inl KeyError \<and>
   dendro_import_hdf5 1000 (file1d [1/2, 1, 3/2, 2] [1, 1, 2, 2] ''((1:2.0,2:3.0'') = Inl KeyError"
proof -
  let ?f = "file1d [1/2, 1, 3/2, 2] [1, 1, 2, 2] ''((1:2.0,2:3.0''"
  have a: "aggregate (fresh ?f) (np_indices (shape (ds_data ?f))) ([], [])
     = Inr ([(1, [1/2, 1]), (2, [3/2, 2])], [(1, [[0], [1]]), (2, [[2], [3]])])"
    by code_simp
  have n: "CHR '')'' \<notin> set (ds_newick ?f)" by (simp add: file1d_def)
  have p: "parse_newick 1000 (ds_newick ?f) = Inl KeyError" by code_simp
  from parse_error_before_construction[OF a, of 1000 KeyError] a n p show ?thesis by simp
qed

subsection \<open>Cached depth of the trunk\<close>

text \<open>
  Claim C7. After a successful import every node listed in the trunk has its cached depth
  \<^verbatim>\<open>_level\<close> set to 0.
\<close>

theorem trunk_level_cached:
  assumes "dendro_import_hdf5 depth f = Inr d" and "n \<in> set (trunk d)"
  shows "level n = Some 0"
proof -
  from assms(1) obtain nodes where "trunk d = map (set_level 0) nodes"
    by (auto elim: import_parts)
  with assms(2) show ?thesis by auto
qed

theorem trunk_level_cached_witness:
  "dendro_import_hdf5 1000 branch_file = Inr branch_dendrogram \<and>
   branch_node \<in> set (trunk branch_dendrogram) \<and> level branch_node = Some 0"
proof -
  have "branch_node \<in> set (trunk branch_dendrogram)" by (simp add: branch_dendrogram_def)
  from trunk_level_cached[OF import_branch_file this] import_branch_file this
  show ?thesis by simp
qed

section \<open>The parser on well-formed topology strings\<close>

subsection \<open>Tokens\<close>


lemma plain_append [simp]: "plain (a @ b) \<longleftrightarrow> plain a \<and> plain b"
  by (auto simp: plain_def)

lemma plain_Nil [simp]: "plain []"
  by (simp add: plain_def)

lemma is_digit_plain: "list_all is_digit t \<Longrightarrow> plain t"
  by (induction t) (auto simp: plain_def is_digit_def)

lemma is_digit_not_space: "is_digit c \<Longrightarrow> \<not> is_space c"
  by (auto simp: is_digit_def is_space_def)

lemma int_literal_digits:
  "int_literal t \<noteq> None \<Longrightarrow> t \<noteq> [] \<and> list_all is_digit t"
  by (auto simp: int_literal_def split: if_splits)

lemma int_literal_value: "int_literal t \<noteq> None \<Longrightarrow> int_literal t = Some (int (decimal t))"
  by (auto simp: int_literal_def split: if_splits)

lemma dropWhile_digits: "list_all is_digit t \<Longrightarrow> t \<noteq> [] \<Longrightarrow> dropWhile is_space t = t"
  by (cases t) (auto simp: is_digit_not_space)

lemma strip_digits: "list_all is_digit t \<Longrightarrow> t \<noteq> [] \<Longrightarrow> strip t = t"
proof -
  assume a: "list_all is_digit t" "t \<noteq> []"
  then have "list_all is_digit (rev t)" "rev t \<noteq> []" by (simp_all add: list_all_iff)
  then have "dropWhile is_space (rev t) = rev t" by (rule dropWhile_digits)
  with a show ?thesis by (simp add: strip_def dropWhile_digits)
qed

lemma py_int_literal:
  assumes "int_literal t \<noteq> None"
  shows "py_int t = Inr (int (decimal t))"
proof -
  from assms have d: "t \<noteq> []" "list_all is_digit t" by (simp_all add: int_literal_digits)
  then have h: "is_digit (hd t)" by (cases t) auto
  then have "hd t \<noteq> CHR ''-''" "hd t \<noteq> CHR ''+''" by (auto simp: is_digit_def)
  with d show ?thesis by (simp add: py_int_def strip_digits)
qed

lemma branch_key_literal:
  "int_literal t \<noteq> None \<Longrightarrow> branch_key t = Inr (Id (int (decimal t)))"
  using int_literal_digits[of t] by (simp add: branch_key_def py_int_literal)


lemma split_on_not_Nil [simp]: "split_on c s \<noteq> []"
  by (induction s) (auto split: list.splits)

lemma join_split_on: "join c (split_on c s) = s"
proof (induction s)
  case Nil
  then show ?case by simp
next
  case (Cons x s)
  show ?case
  proof (cases "x = c")
    case True
    then show ?thesis using Cons by (cases "split_on c s") auto
  next
    case False
    then show ?thesis using Cons
      by (cases "split_on c s") (auto split: list.splits; (rename_tac ws, case_tac ws; simp))+
  qed
qed

lemma split_on_plain: "c \<notin> set a \<Longrightarrow> split_on c a = [a]"
  by (induction a) auto

lemma split_on_append: "c \<notin> set a \<Longrightarrow> split_on c (a @ c # b) = a # split_on c b"
  by (induction a) auto

lemma float_literal_plain:
  assumes "float_literal t \<noteq> None"
  shows "plain t"
proof -
  let ?u = "if t \<noteq> [] \<and> hd t = CHR ''-'' then tl t else t"
  from assms obtain ip fp where s: "split_on CHR ''.'' ?u = [ip, fp]"
    and d: "list_all is_digit ip" "list_all is_digit fp"
    by (auto simp: float_literal_def Let_def split: list.splits if_splits)
  have "join CHR ''.'' (split_on CHR ''.'' ?u) = ?u" by (rule join_split_on)
  with s have u: "?u = ip @ CHR ''.'' # fp" by simp
  have "plain ip" "plain fp" using d by (simp_all add: is_digit_plain)
  then have "plain ?u" unfolding u by (simp add: plain_def)
  then show ?thesis by (cases t) (auto simp: plain_def split: if_splits)
qed

subsection \<open>The text of a group\<close>

lemma plain_noparen: "plain s \<Longrightarrow> noparen s"
  by (simp add: plain_def noparen_def)

lemma noparen_append [simp]: "noparen (a @ b) \<longleftrightarrow> noparen a \<and> noparen b"
  by (auto simp: noparen_def)

lemma noparen_Nil [simp]: "noparen []"
  by (simp add: noparen_def)

lemma noparen_Cons [simp]:
  "noparen (c # s) \<longleftrightarrow> c \<noteq> CHR ''('' \<and> c \<noteq> CHR '')'' \<and> noparen s"
  by (auto simp: noparen_def)

lemma tok_ok_plain: "tok_ok t \<Longrightarrow> plain (id_token t) \<and> plain (height_token t)"
  using int_literal_digits[of "id_token t"]
  by (auto simp: tok_ok_def is_digit_plain float_literal_plain)

lemma entry_text_noparen: "tok_ok t \<Longrightarrow> noparen (entry_text t)"
  using tok_ok_plain[of t] by (simp add: entry_text_def plain_noparen)

lemma entry_text_nocomma: "tok_ok t \<Longrightarrow> CHR '','' \<notin> set (entry_text t)"
  using tok_ok_plain[of t] by (simp add: entry_text_def plain_def)

lemma entry_entry_text: "tok_ok t \<Longrightarrow> entry (entry_text t) = Some (plain_entry t)"
proof -
  assume a: "tok_ok t"
  then have p: "CHR '':'' \<notin> set (id_token t)" "CHR '':'' \<notin> set (height_token t)"
    using tok_ok_plain[of t] by (simp_all add: plain_def)
  have s: "split_on CHR '':'' (entry_text t) = [id_token t, height_token t]"
    by (simp add: entry_text_def split_on_append[OF p(1)] split_on_plain[OF p(2)])
  from a obtain x where x: "float_literal (height_token t) = Some x"
    by (auto simp: tok_ok_def)
  from a have i: "int_literal (id_token t) = Some (int (decimal (id_token t)))"
    by (simp add: tok_ok_def int_literal_value)
  show ?thesis by (simp add: entry_def s x i plain_entry_def identity_def height_def)
qed

lemma commas_Nil [simp]: "commas [] = []"
  by (simp add: commas_def)

lemma commas_single [simp]: "commas [x] = x"
  by (simp add: commas_def)

lemma commas_Cons2: "commas (x # y # ys) = x @ CHR '','' # commas (y # ys)"
  by (simp add: commas_def)

lemma split_commas:
  "xs \<noteq> [] \<Longrightarrow> \<forall>x \<in> set xs. CHR '','' \<notin> set x \<Longrightarrow> split_on CHR '','' (commas xs) = xs"
proof (induction xs rule: induct_list012)
  case 1
  then show ?case by simp
next
  case (2 x)
  then show ?case by (simp add: split_on_plain)
next
  case (3 x y zs)
  then show ?case by (simp add: commas_Cons2 split_on_append)
qed

lemma update_new: "k \<notin> fst ` set d \<Longrightarrow> AList.update k v d = d @ [(k, v)]"
  by (induction d) auto

lemma entries_plain:
  "\<forall>t \<in> set ts. tok_ok t \<Longrightarrow> distinct (map identity ts) \<Longrightarrow>
     \<forall>t \<in> set ts. identity t \<notin> fst ` set d \<Longrightarrow>
     entries (map entry_text ts) d = Some (d @ map plain_entry ts)"
proof (induction ts arbitrary: d)
  case Nil
  then show ?case by simp
next
  case (Cons t ts)
  have u: "AList.update (identity t) (Float (height t)) d = d @ [plain_entry t]"
    using Cons.prems(3) by (simp add: update_new plain_entry_def)
  have "identity t \<notin> identity ` set ts" using Cons.prems(2) by simp
  then have "\<forall>t' \<in> set ts. identity t' \<noteq> identity t" by (metis imageI)
  then have "\<forall>t' \<in> set ts. identity t' \<notin> fst ` set (d @ [plain_entry t])"
    using Cons.prems(3) by (simp add: plain_entry_def)
  from Cons.IH[OF _ _ this] Cons.prems(1,2) u show ?case
    by (simp add: entry_entry_text plain_entry_def)
qed

lemma commas_noparen: "\<forall>x \<in> set xs. noparen x \<Longrightarrow> noparen (commas xs)"
  by (induction xs rule: induct_list012) (auto simp: commas_Cons2)

lemma body_noparen: "\<forall>t \<in> set ts. tok_ok t \<Longrightarrow> noparen (commas (map entry_text ts))"
  by (rule commas_noparen) (auto simp: entry_text_noparen)

lemma eval_body:
  assumes "\<forall>t \<in> set ts. tok_ok t" and "distinct (map identity ts)"
  shows "eval_dict (commas (map entry_text ts)) = Inr (map plain_entry ts)"
proof (cases ts)
  case Nil
  then show ?thesis by (simp add: eval_dict_def)
next
  case (Cons t ts')
  let ?xs = "map entry_text ts"
  have ne: "?xs \<noteq> []" using Cons by simp
  have nc: "\<forall>x \<in> set ?xs. CHR '','' \<notin> set x" using assms(1) by (auto simp: entry_text_nocomma)
  have s: "split_on CHR '','' (commas ?xs) = ?xs" by (rule split_commas[OF ne nc])
  have "tok_ok t" using assms(1) Cons by simp
  then have i: "id_token t \<noteq> []" "list_all is_digit (id_token t)"
    using int_literal_digits[of "id_token t"] by (simp_all add: tok_ok_def)
  then have "is_digit (hd (id_token t))" by (cases "id_token t") auto
  then have h: "hd (id_token t) \<noteq> CHR '':''" by (auto simp: is_digit_def)
  have "commas ?xs = entry_text t @ concat (map ((#) CHR '','') (map entry_text ts'))"
    using Cons by (simp add: commas_def)
  then have c: "commas ?xs \<noteq> []" "hd (commas ?xs) = hd (id_token t)"
    using i(1) by (simp_all add: entry_text_def)
  have "entries ?xs [] = Some ([] @ map plain_entry ts)"
    by (rule entries_plain) (use assms in auto)
  then show ?thesis using c h s by (simp add: eval_dict_def)
qed

subsection \<open>The spans found at one level\<close>

lemma find_pairs_noparen:
  "noparen c \<Longrightarrow>
     find_pairs L (c @ rest) i cur st ps = find_pairs L rest (i + length c) cur st ps"
  by (induction c arbitrary: i) auto

lemma render_cut_0: "render_cut 0 = entry_text"
  by (rule ext) simp

lemma topo_nodes_self: "t \<in> set (topo_nodes t)"
  by (cases t) simp_all

lemma scan_tail:
  assumes "\<And>t i st ps rest. t \<in> set ts \<Longrightarrow>
     \<exists>st'. find_pairs L (render_cut n t @ rest) i cur st ps =
           find_pairs L rest (i + length (render_cut n t)) cur st' (ps @ spans n t i)"
  shows "\<exists>st'. find_pairs L (concat (map ((#) CHR '','') (map (render_cut n) ts)) @ rest) i cur st ps =
           find_pairs L rest (i + length (concat (map ((#) CHR '','') (map (render_cut n) ts))))
             cur st' (ps @ spans_list n ts (Suc i))"
  using assms
proof (induction ts arbitrary: i st ps)
  case Nil
  then show ?case by (auto intro!: exI[of _ st])
next
  case (Cons t ts)
  let ?r = "render_cut n t"
  let ?tl = "concat (map ((#) CHR '','') (map (render_cut n) ts))"
  have t0: "concat (map ((#) CHR '','') (map (render_cut n) (t # ts))) @ rest =
            CHR '','' # ?r @ ?tl @ rest"
    by simp
  have len: "i + length (concat (map ((#) CHR '','') (map (render_cut n) (t # ts)))) =
             Suc i + length ?r + length ?tl"
    by simp
  have sp: "ps @ spans_list n (t # ts) (Suc i) =
            (ps @ spans n t (Suc i)) @ spans_list n ts (Suc (Suc i + length ?r))"
    by simp
  from Cons.prems[where t=t and i="Suc i" and st=st and ps=ps and rest="?tl @ rest"]
  obtain st1 where
    1: "find_pairs L (?r @ ?tl @ rest) (Suc i) cur st ps =
        find_pairs L (?tl @ rest) (Suc i + length ?r) cur st1 (ps @ spans n t (Suc i))"
    by auto
  from Cons.IH[where i="Suc i + length ?r" and st=st1 and ps="ps @ spans n t (Suc i)"]
    Cons.prems
  obtain st2 where
    2: "find_pairs L (?tl @ rest) (Suc i + length ?r) cur st1 (ps @ spans n t (Suc i)) =
        find_pairs L rest (Suc i + length ?r + length ?tl) cur st2
          ((ps @ spans n t (Suc i)) @ spans_list n ts (Suc (Suc i + length ?r)))"
    by auto
  have "find_pairs L (CHR '','' # ?r @ ?tl @ rest) i cur st ps =
        find_pairs L (?r @ ?tl @ rest) (Suc i) cur st ps"
    by simp
  also note 1
  also note 2
  finally show ?case unfolding t0 len sp by blast
qed

lemma scan_list:
  assumes "\<And>t i st ps rest. t \<in> set ts \<Longrightarrow>
     \<exists>st'. find_pairs L (render_cut n t @ rest) i cur st ps =
           find_pairs L rest (i + length (render_cut n t)) cur st' (ps @ spans n t i)"
  shows "\<exists>st'. find_pairs L (commas (map (render_cut n) ts) @ rest) i cur st ps =
           find_pairs L rest (i + length (commas (map (render_cut n) ts)))
             cur st' (ps @ spans_list n ts i)"
proof (cases ts)
  case Nil
  then show ?thesis by (auto intro!: exI[of _ st])
next
  case (Cons t ts')
  let ?r = "render_cut n t"
  let ?tl = "concat (map ((#) CHR '','') (map (render_cut n) ts'))"
  have c: "commas (map (render_cut n) ts) = ?r @ ?tl" using Cons by (simp add: commas_def)
  have t0: "commas (map (render_cut n) ts) @ rest = ?r @ ?tl @ rest" by (simp add: c)
  have len: "i + length (commas (map (render_cut n) ts)) = i + length ?r + length ?tl"
    by (simp add: c)
  have sp: "ps @ spans_list n ts i =
            (ps @ spans n t i) @ spans_list n ts' (Suc (i + length ?r))"
    using Cons by simp
  from assms[where t=t and i=i and st=st and ps=ps and rest="?tl @ rest"] Cons obtain st1 where
    1: "find_pairs L (?r @ ?tl @ rest) i cur st ps =
        find_pairs L (?tl @ rest) (i + length ?r) cur st1 (ps @ spans n t i)"
    by auto
  have "\<exists>st'. find_pairs L (?tl @ rest) (i + length ?r) cur st1 (ps @ spans n t i) =
           find_pairs L rest (i + length ?r + length ?tl) cur st'
             ((ps @ spans n t i) @ spans_list n ts' (Suc (i + length ?r)))"
    by (rule scan_tail) (use assms Cons in auto)
  then obtain st2 where
    2: "find_pairs L (?tl @ rest) (i + length ?r) cur st1 (ps @ spans n t i) =
           find_pairs L rest (i + length ?r + length ?tl) cur st2
             ((ps @ spans n t i) @ spans_list n ts' (Suc (i + length ?r)))"
    by auto
  note 1
  also note 2
  finally show ?thesis unfolding t0 len sp by blast
qed

lemma scan_tree:
  "\<forall>u \<in> set (topo_nodes t). tok_ok u \<Longrightarrow> L = cur + int n \<Longrightarrow>
     \<exists>st'. find_pairs L (render_cut n t @ rest) i cur st ps =
           find_pairs L rest (i + length (render_cut n t)) cur st' (ps @ spans n t i)"
proof (induction t arbitrary: n L cur rest i st ps)
  case (Leaf a h)
  have "noparen (entry_text (Leaf a h))" using Leaf.prems(1) by (simp add: entry_text_noparen)
  then show ?case by (cases n) (auto simp: find_pairs_noparen intro!: exI[of _ st])
next
  case (Branch ts a h)
  let ?e = "entry_text (Branch ts a h)"
  have e: "noparen ?e" using Branch.prems(1) by (simp add: entry_text_noparen)
  have ok: "\<forall>t \<in> set ts. \<forall>u \<in> set (topo_nodes t). tok_ok u" using Branch.prems(1) by auto
  show ?case
  proof (cases n)
    case 0
    then show ?thesis using e by (auto simp: find_pairs_noparen intro!: exI[of _ st])
  next
    case (Suc m)
    let ?b = "commas (map (render_cut m) ts)"
    have r: "render_cut n (Branch ts a h) @ rest = CHR ''('' # ?b @ CHR '')'' # ?e @ rest"
      using Suc by simp
    have len: "i + length (render_cut n (Branch ts a h)) =
               Suc (Suc i + length ?b) + length ?e"
      using Suc by simp
    show ?thesis
    proof (cases m)
      case 0
      have b0: "?b = commas (map entry_text ts)" using 0 by (simp add: render_cut_0)
      have b: "noparen ?b" unfolding b0
        by (rule body_noparen) (use ok in \<open>auto simp: topo_nodes_self\<close>)
      have L: "L = cur + 1" using Branch.prems(2) Suc 0 by simp
      have sp: "ps @ spans n (Branch ts a h) i = ps @ [(i, Suc i + length ?b)]"
        using Suc 0 by (simp add: render_cut_0)
      have "find_pairs L (CHR ''('' # ?b @ CHR '')'' # ?e @ rest) i cur st ps =
            find_pairs L (?b @ CHR '')'' # ?e @ rest) (Suc i) (cur + 1) (Some i) ps"
        by (simp add: L)
      also have "\<dots> = find_pairs L (CHR '')'' # ?e @ rest) (Suc i + length ?b) (cur + 1) (Some i) ps"
        by (rule find_pairs_noparen[OF b])
      also have "\<dots> = find_pairs L (?e @ rest) (Suc (Suc i + length ?b)) cur (Some i)
                         (ps @ [(i, Suc i + length ?b)])"
        by (simp add: L)
      also have "\<dots> = find_pairs L rest (Suc (Suc i + length ?b) + length ?e) cur (Some i)
                         (ps @ [(i, Suc i + length ?b)])"
        by (rule find_pairs_noparen[OF e])
      finally show ?thesis unfolding r len sp by blast
    next
      case (Suc k)
      have L1: "L = (cur + 1) + int m" and L2: "cur + 1 \<noteq> L"
        using Branch.prems(2) \<open>n = Suc m\<close> Suc by simp_all
      have sp: "ps @ spans n (Branch ts a h) i = ps @ spans_list m ts (Suc i)"
        using \<open>n = Suc m\<close> Suc by simp
      have "\<exists>st'. find_pairs L (?b @ CHR '')'' # ?e @ rest) (Suc i) (cur + 1) st ps =
           find_pairs L (CHR '')'' # ?e @ rest) (Suc i + length ?b) (cur + 1) st'
             (ps @ spans_list m ts (Suc i))"
        by (rule scan_list) (use Branch.IH ok L1 in auto)
      then obtain st1 where
        1: "find_pairs L (?b @ CHR '')'' # ?e @ rest) (Suc i) (cur + 1) st ps =
           find_pairs L (CHR '')'' # ?e @ rest) (Suc i + length ?b) (cur + 1) st1
             (ps @ spans_list m ts (Suc i))"
        by auto
      have "find_pairs L (CHR ''('' # ?b @ CHR '')'' # ?e @ rest) i cur st ps =
            find_pairs L (?b @ CHR '')'' # ?e @ rest) (Suc i) (cur + 1) st ps"
        using L2 by simp
      also note 1
      also have "find_pairs L (CHR '')'' # ?e @ rest) (Suc i + length ?b) (cur + 1) st1
             (ps @ spans_list m ts (Suc i)) =
           find_pairs L (?e @ rest) (Suc (Suc i + length ?b)) cur st1
             (ps @ spans_list m ts (Suc i))"
        using L2 by simp
      also have "\<dots> = find_pairs L rest (Suc (Suc i + length ?b) + length ?e) cur st1
             (ps @ spans_list m ts (Suc i))"
        by (rule find_pairs_noparen[OF e])
      finally show ?thesis unfolding r len sp by blast
    qed
  qed
qed

subsection \<open>Resolving one span\<close>

lemma excise_append:
  "excise (xs @ ys) s items =
     (case excise xs s items of Inl e \<Rightarrow> Inl e | Inr (s', items') \<Rightarrow> excise ys s' items')"
proof (induction xs arbitrary: s items)
  case Nil
  then show ?case by simp
next
  case (Cons p xs)
  obtain a b where p: "p = (a, b)" by (cases p)
  show ?case
    by (simp add: p Let_def Cons.IH split: sum.splits)
qed

lemma index_of_append: "c \<notin> set a \<Longrightarrow> index_of c (a @ c # b) = Some (length a)"
  by (induction a) auto

lemma index_of_None: "c \<notin> set a \<Longrightarrow> index_of c a = None"
  by (induction a) auto

lemma slice_mid:
  "slice (a @ b @ c) (int (length a)) (int (length a + length b)) = b"
  by (simp add: slice_def clip_def)

lemma rev_single_excise:
  assumes key: "branch_key i = Inr k" and nc: "CHR '':'' \<notin> set i"
    and ev: "eval_dict body = Inr d"
  shows "excise [(length pre, length pre + length body + 1)]
           (pre @ CHR ''('' # body @ CHR '')'' # i @ CHR '':'' # rest) items =
         Inr (pre @ i @ CHR '':'' # rest, AList.update k d items)"
proof -
  let ?s = "pre @ CHR ''('' # body @ CHR '')'' # i @ CHR '':'' # rest"
  let ?e = "length pre + length body + 1"
  have d: "drop ?e ?s = CHR '')'' # i @ CHR '':'' # rest" by simp
  have "index_of CHR '':'' (CHR '')'' # i @ CHR '':'' # rest) = Some (Suc (length i))"
    using nc by (simp add: index_of_append)
  then have f: "find_from CHR '':'' ?e ?s = int (?e + Suc (length i))"
    by (simp only: find_from_def d) simp
  have s1: "?s = (pre @ CHR ''('' # body @ [CHR '')'']) @ i @ (CHR '':'' # rest)" by simp
  have "slice ?s (int (length (pre @ CHR ''('' # body @ [CHR '')''])))
          (int (length (pre @ CHR ''('' # body @ [CHR '')'']) + length i)) = i"
    by (subst s1) (rule slice_mid)
  then have b: "slice ?s (int ?e + 1) (int (?e + Suc (length i))) = i"
    by (simp add: add.commute add.left_commute)
  have s2: "?s = (pre @ [CHR ''(''] ) @ body @ (CHR '')'' # i @ CHR '':'' # rest)" by simp
  have "slice ?s (int (length (pre @ [CHR ''('']))) (int (length (pre @ [CHR ''(''] ) + length body)) = body"
    by (subst s2) (rule slice_mid)
  then have c: "slice ?s (int (length pre) + 1) (int ?e) = body"
    by (simp add: add.commute add.left_commute)
  have t: "take (length pre) ?s @ drop (Suc ?e) ?s = pre @ i @ CHR '':'' # rest" by simp
  show ?thesis
    by (simp only: excise.simps Let_def f b key c ev t sum.case)
qed

subsection \<open>Resolving the spans of one level\<close>

lemma render_cut_Leaf [simp]: "render_cut n (Leaf i h) = entry_text (Leaf i h)"
  by (cases n) simp_all

lemma excise_tail:
  assumes "\<And>t pre rest items. t \<in> set ts \<Longrightarrow>
     excise (rev (spans n t (length pre))) (pre @ render_cut n t @ rest) items =
       Inr (pre @ render_cut (n - 1) t @ rest, store n t items)"
  shows "excise (rev (spans_list n ts (Suc (length pre))))
           (pre @ concat (map ((#) CHR '','') (map (render_cut n) ts)) @ rest) items =
         Inr (pre @ concat (map ((#) CHR '','') (map (render_cut (n - 1)) ts)) @ rest,
              store_list n ts items)"
  using assms
proof (induction ts arbitrary: pre items)
  case Nil
  then show ?case by simp
next
  case (Cons t ts)
  let ?r = "render_cut n t"
  let ?r' = "render_cut (n - 1) t"
  let ?tl = "concat (map ((#) CHR '','') (map (render_cut n) ts))"
  let ?tl' = "concat (map ((#) CHR '','') (map (render_cut (n - 1)) ts))"
  let ?p1 = "pre @ CHR '','' # ?r"
  let ?p2 = "pre @ [CHR '','']"
  have sp: "rev (spans_list n (t # ts) (Suc (length pre))) =
            rev (spans_list n ts (Suc (length ?p1))) @ rev (spans n t (length ?p2))"
    by simp
  have s0: "pre @ concat (map ((#) CHR '','') (map (render_cut n) (t # ts))) @ rest =
            ?p1 @ ?tl @ rest"
    by simp
  have 1: "excise (rev (spans_list n ts (Suc (length ?p1)))) (?p1 @ ?tl @ rest) items =
           Inr (?p1 @ ?tl' @ rest, store_list n ts items)"
    by (rule Cons.IH) (use Cons.prems in auto)
  have s1: "?p1 @ ?tl' @ rest = ?p2 @ ?r @ (?tl' @ rest)" by simp
  have 2: "excise (rev (spans n t (length ?p2))) (?p2 @ ?r @ (?tl' @ rest)) (store_list n ts items) =
           Inr (?p2 @ ?r' @ (?tl' @ rest), store n t (store_list n ts items))"
    by (rule Cons.prems) simp
  have r: "?p2 @ ?r' @ (?tl' @ rest) =
           pre @ concat (map ((#) CHR '','') (map (render_cut (n - 1)) (t # ts))) @ rest"
    by simp
  show ?case
    unfolding sp s0 excise_append 1 by (simp only: sum.case prod.case s1 2 r store_list.simps)
qed

lemma excise_list:
  assumes "\<And>t pre rest items. t \<in> set ts \<Longrightarrow>
     excise (rev (spans n t (length pre))) (pre @ render_cut n t @ rest) items =
       Inr (pre @ render_cut (n - 1) t @ rest, store n t items)"
  shows "excise (rev (spans_list n ts (length pre)))
           (pre @ commas (map (render_cut n) ts) @ rest) items =
         Inr (pre @ commas (map (render_cut (n - 1)) ts) @ rest, store_list n ts items)"
proof (cases ts)
  case Nil
  then show ?thesis by simp
next
  case (Cons t ts')
  let ?r = "render_cut n t"
  let ?r' = "render_cut (n - 1) t"
  let ?tl = "concat (map ((#) CHR '','') (map (render_cut n) ts'))"
  let ?tl' = "concat (map ((#) CHR '','') (map (render_cut (n - 1)) ts'))"
  let ?p1 = "pre @ ?r"
  have sp: "rev (spans_list n ts (length pre)) =
            rev (spans_list n ts' (Suc (length ?p1))) @ rev (spans n t (length pre))"
    using Cons by simp
  have s0: "pre @ commas (map (render_cut n) ts) @ rest = ?p1 @ ?tl @ rest"
    using Cons by (simp add: commas_def)
  have 1: "excise (rev (spans_list n ts' (Suc (length ?p1)))) (?p1 @ ?tl @ rest) items =
           Inr (?p1 @ ?tl' @ rest, store_list n ts' items)"
    by (rule excise_tail) (use assms Cons in auto)
  have s1: "?p1 @ ?tl' @ rest = pre @ ?r @ (?tl' @ rest)" by simp
  have 2: "excise (rev (spans n t (length pre))) (pre @ ?r @ (?tl' @ rest)) (store_list n ts' items) =
           Inr (pre @ ?r' @ (?tl' @ rest), store n t (store_list n ts' items))"
    by (rule assms) (simp add: Cons)
  have r: "pre @ ?r' @ (?tl' @ rest) = pre @ commas (map (render_cut (n - 1)) ts) @ rest"
    using Cons by (simp add: commas_def)
  have st: "store n t (store_list n ts' items) = store_list n ts items"
    using Cons by simp
  show ?thesis
    unfolding sp s0 excise_append 1 by (simp only: sum.case prod.case s1 2 r st)
qed


lemma excise_tree:
  "\<forall>u \<in> set (topo_nodes t). tok_ok u \<Longrightarrow> siblings_distinct t \<Longrightarrow>
     excise (rev (spans n t (length pre))) (pre @ render_cut n t @ rest) items =
       Inr (pre @ render_cut (n - 1) t @ rest, store n t items)"
proof (induction t arbitrary: n pre rest items)
  case (Leaf a h)
  then show ?case by simp
next
  case (Branch ts a h)
  let ?t = "Branch ts a h"
  let ?e = "entry_text ?t"
  have ok: "\<forall>t \<in> set ts. \<forall>u \<in> set (topo_nodes t). tok_ok u" using Branch.prems(1) by auto
  have sd: "\<forall>t \<in> set ts. siblings_distinct t"
    using Branch.prems(2) by (auto simp: siblings_distinct_def)
  show ?case
  proof (cases n)
    case 0
    then show ?thesis by simp
  next
    case (Suc m)
    show ?thesis
    proof (cases m)
      case 0
      let ?b = "commas (map entry_text ts)"
      have tk: "tok_ok ?t" using Branch.prems(1) by simp
      then have key: "branch_key a = Inr (Id (identity ?t))"
        by (simp add: tok_ok_def branch_key_literal identity_def)
      have nc: "CHR '':'' \<notin> set a" using tok_ok_plain[OF tk] by (simp add: plain_def)
      have "\<forall>t \<in> set ts. tok_ok t" using ok by (auto simp: topo_nodes_self)
      moreover have "distinct (map identity ts)"
        using Branch.prems(2) by (auto simp: siblings_distinct_def)
      ultimately have ev: "eval_dict ?b = Inr (map plain_entry ts)" by (rule eval_body)
      have sp: "rev (spans n ?t (length pre)) = [(length pre, length pre + length ?b + 1)]"
        using Suc 0 by simp
      have s0: "pre @ render_cut n ?t @ rest =
                pre @ CHR ''('' # ?b @ CHR '')'' # a @ CHR '':'' # (h @ rest)"
        using Suc 0 by (simp add: render_cut_0 entry_text_def)
      have r: "pre @ a @ CHR '':'' # (h @ rest) = pre @ render_cut (n - 1) ?t @ rest"
        using Suc 0 by (simp add: entry_text_def)
      have st: "AList.update (Id (identity ?t)) (map plain_entry ts) items = store n ?t items"
        using Suc 0 by simp
      show ?thesis
        unfolding sp s0 by (simp only: rev_single_excise[OF key nc ev] r st)
    next
      case (Suc k)
      let ?b = "commas (map (render_cut m) ts)"
      let ?b' = "commas (map (render_cut (m - 1)) ts)"
      let ?p = "pre @ [CHR ''('']"
      have sp: "rev (spans n ?t (length pre)) = rev (spans_list m ts (length ?p))"
        using \<open>n = Suc m\<close> Suc by simp
      have s0: "pre @ render_cut n ?t @ rest = ?p @ ?b @ (CHR '')'' # ?e @ rest)"
        using \<open>n = Suc m\<close> by simp
      have 1: "excise (rev (spans_list m ts (length ?p))) (?p @ ?b @ (CHR '')'' # ?e @ rest)) items =
               Inr (?p @ ?b' @ (CHR '')'' # ?e @ rest), store_list m ts items)"
        by (rule excise_list) (use Branch.IH ok sd in auto)
      have r: "?p @ ?b' @ (CHR '')'' # ?e @ rest) = pre @ render_cut (n - 1) ?t @ rest"
        using \<open>n = Suc m\<close> Suc by simp
      have st: "store_list m ts items = store n ?t items"
        using \<open>n = Suc m\<close> Suc by simp
      show ?thesis unfolding sp s0 1 r st ..
    qed
  qed
qed

subsection \<open>The maximum level\<close>

lemma max_list_ge: "x \<in> set xs \<Longrightarrow> x \<le> max_list xs"
  by (induction xs) auto

lemma render_cut_ge: "depth_of t \<le> n \<Longrightarrow> render_cut n t = render_cut (depth_of t) t"
proof (induction t arbitrary: n)
  case (Leaf a h)
  then show ?case by simp
next
  case (Branch ts a h)
  then obtain m where n: "n = Suc m" and m: "max_list (map depth_of ts) \<le> m"
    by (cases n) auto
  have "render_cut m t = render_cut (max_list (map depth_of ts)) t" if "t \<in> set ts" for t
  proof -
    have d: "depth_of t \<le> max_list (map depth_of ts)" using that by (simp add: max_list_ge)
    with m have "depth_of t \<le> m" by simp
    from Branch.IH[OF that this] Branch.IH[OF that d] show ?thesis by simp
  qed
  then have "map (render_cut m) ts = map (render_cut (max_list (map depth_of ts))) ts"
    by simp
  then show ?case by (simp add: n del: map_eq_conv)
qed

lemma document_doc_cut:
  "document ts tail = doc_cut (max_list (map depth_of ts)) ts tail"
proof -
  have "render t = render_cut (max_list (map depth_of ts)) t" if "t \<in> set ts" for t
    using render_cut_ge[of t "max_list (map depth_of ts)"] that
    by (simp add: render_def max_list_ge)
  then have "map render ts = map (render_cut (max_list (map depth_of ts))) ts" by simp
  then show ?thesis by (simp add: document_def doc_cut_def del: map_eq_conv)
qed

lemma scan_levels_noparen:
  "noparen c \<Longrightarrow> cur \<le> mx \<Longrightarrow> scan_levels (c @ rest) cur mx = scan_levels rest cur mx"
  by (induction c) (auto simp: Let_def)

lemma scan_levels_tail:
  assumes "\<And>t rest mx. t \<in> set ts \<Longrightarrow> cur \<le> mx \<Longrightarrow>
     scan_levels (render_cut n t @ rest) cur mx =
       scan_levels rest cur (max mx (cur + int (min n (depth_of t))))"
    and "cur \<le> mx"
  shows "scan_levels (concat (map ((#) CHR '','') (map (render_cut n) ts)) @ rest) cur mx =
           scan_levels rest cur (max mx (cur + int (min n (max_list (map depth_of ts)))))"
  using assms
proof (induction ts arbitrary: mx)
  case Nil
  then show ?case by simp
next
  case (Cons t ts)
  let ?tl = "concat (map ((#) CHR '','') (map (render_cut n) ts))"
  let ?m1 = "max mx (cur + int (min n (depth_of t)))"
  have "scan_levels (concat (map ((#) CHR '','') (map (render_cut n) (t # ts))) @ rest) cur mx =
        scan_levels (render_cut n t @ ?tl @ rest) cur mx"
    using Cons.prems(2) by (simp add: Let_def)
  also have "\<dots> = scan_levels (?tl @ rest) cur ?m1"
    by (rule Cons.prems(1)) (use Cons.prems(2) in auto)
  also have "\<dots> = scan_levels rest cur (max ?m1 (cur + int (min n (max_list (map depth_of ts)))))"
    by (rule Cons.IH) (use Cons.prems in auto)
  also have "max ?m1 (cur + int (min n (max_list (map depth_of ts)))) =
             max mx (cur + int (min n (max_list (map depth_of (t # ts)))))"
    by (simp add: min_def max_def)
  finally show ?case .
qed

lemma scan_levels_list:
  assumes "\<And>t rest mx. t \<in> set ts \<Longrightarrow> cur \<le> mx \<Longrightarrow>
     scan_levels (render_cut n t @ rest) cur mx =
       scan_levels rest cur (max mx (cur + int (min n (depth_of t))))"
    and "cur \<le> mx"
  shows "scan_levels (commas (map (render_cut n) ts) @ rest) cur mx =
           scan_levels rest cur (max mx (cur + int (min n (max_list (map depth_of ts)))))"
proof (cases ts)
  case Nil
  then show ?thesis using assms(2) by simp
next
  case (Cons t ts')
  let ?tl = "concat (map ((#) CHR '','') (map (render_cut n) ts'))"
  let ?m1 = "max mx (cur + int (min n (depth_of t)))"
  have "scan_levels (commas (map (render_cut n) ts) @ rest) cur mx =
        scan_levels (render_cut n t @ ?tl @ rest) cur mx"
    using Cons by (simp add: commas_def)
  also have "\<dots> = scan_levels (?tl @ rest) cur ?m1"
    by (rule assms(1)) (use assms(2) Cons in auto)
  also have "\<dots> = scan_levels rest cur (max ?m1 (cur + int (min n (max_list (map depth_of ts')))))"
    by (rule scan_levels_tail) (use assms Cons in auto)
  also have "max ?m1 (cur + int (min n (max_list (map depth_of ts')))) =
             max mx (cur + int (min n (max_list (map depth_of ts))))"
    using Cons by (simp add: min_def max_def)
  finally show ?thesis .
qed

lemma scan_levels_tree:
  "\<forall>u \<in> set (topo_nodes t). tok_ok u \<Longrightarrow> cur \<le> mx \<Longrightarrow>
     scan_levels (render_cut n t @ rest) cur mx =
       scan_levels rest cur (max mx (cur + int (min n (depth_of t))))"
proof (induction t arbitrary: n cur mx rest)
  case (Leaf a h)
  have "noparen (entry_text (Leaf a h))" using Leaf.prems(1) by (simp add: entry_text_noparen)
  then show ?case using Leaf.prems(2) by (simp add: scan_levels_noparen)
next
  case (Branch ts a h)
  let ?e = "entry_text (Branch ts a h)"
  have e: "noparen ?e" using Branch.prems(1) by (simp add: entry_text_noparen)
  have ok: "\<forall>t \<in> set ts. \<forall>u \<in> set (topo_nodes t). tok_ok u" using Branch.prems(1) by auto
  show ?case
  proof (cases n)
    case 0
    then show ?thesis using e Branch.prems(2) by (simp add: scan_levels_noparen)
  next
    case (Suc m)
    let ?b = "commas (map (render_cut m) ts)"
    let ?d = "max_list (map depth_of ts)"
    let ?m1 = "max mx (cur + 1)"
    let ?m2 = "max ?m1 (cur + 1 + int (min m ?d))"
    have "scan_levels (render_cut n (Branch ts a h) @ rest) cur mx =
          scan_levels (?b @ CHR '')'' # ?e @ rest) (cur + 1) ?m1"
      using Suc by (simp add: Let_def)
    also have "\<dots> = scan_levels (CHR '')'' # ?e @ rest) (cur + 1) ?m2"
      by (rule scan_levels_list) (use Branch.IH ok in auto)
    also have "\<dots> = scan_levels (?e @ rest) cur ?m2"
      using Branch.prems(2) by (simp add: Let_def max_def)
    also have "\<dots> = scan_levels rest cur ?m2"
      by (rule scan_levels_noparen[OF e]) (use Branch.prems(2) in auto)
    also have "?m2 = max mx (cur + int (min n (depth_of (Branch ts a h))))"
      using Suc by (simp add: min_def max_def)
    finally show ?thesis .
  qed
qed

lemma find_max_level_doc_cut:
  assumes "\<forall>t \<in> set ts. \<forall>u \<in> set (topo_nodes t). tok_ok u" and "noparen tail"
  shows "find_max_level (doc_cut (max_list (map depth_of ts)) ts tail) =
           int (Suc (max_list (map depth_of ts)))"
proof -
  let ?d = "max_list (map depth_of ts)"
  let ?b = "commas (map (render_cut ?d) ts)"
  have "find_max_level (doc_cut ?d ts tail) = scan_levels (?b @ CHR '')'' # tail) 1 1"
    by (simp add: find_max_level_def doc_cut_def Let_def)
  also have "\<dots> = scan_levels (CHR '')'' # tail) 1 (max 1 (1 + int (min ?d ?d)))"
    by (rule scan_levels_list) (use assms(1) scan_levels_tree in auto)
  also have "\<dots> = scan_levels (tail @ []) 0 (1 + int ?d)"
    by (simp add: Let_def max_def)
  also have "\<dots> = scan_levels [] 0 (1 + int ?d)"
    by (rule scan_levels_noparen[OF assms(2)]) simp
  finally show ?thesis by simp
qed

subsection \<open>The loop over the levels\<close>

lemma trunk_excise:
  assumes ev: "eval_dict body = Inr d" and tl: "tail = '';'' \<or> tail = '':''"
  shows "excise [(0, length body + 1)] (CHR ''('' # body @ CHR '')'' # tail) items =
         Inr (tail, AList.update Trunk d items)"
proof -
  let ?s = "CHR ''('' # body @ CHR '')'' # tail"
  let ?e = "length body + 1"
  have d: "drop ?e ?s = CHR '')'' # tail" by simp
  have s1: "?s = [CHR ''(''] @ body @ (CHR '')'' # tail)" by simp
  have "slice ?s (int (length [CHR ''(''])) (int (length [CHR ''(''] + length body)) = body"
    by (subst s1) (rule slice_mid)
  then have c: "slice ?s (int 0 + 1) (int ?e) = body" by (simp add: add.commute)
  have b: "slice ?s (int ?e + 1) (find_from CHR '':'' ?e ?s) = []"
    using tl by (auto simp: find_from_def d slice_def clip_def)
  have t: "take 0 ?s @ drop (Suc ?e) ?s = tail" by simp
  have k: "branch_key [] = Inr Trunk" by (simp add: branch_key_def)
  show ?thesis
    by (simp only: excise.simps Let_def b k c ev t sum.case)
qed

lemma find_pairs_end:
  "noparen c \<Longrightarrow> find_pairs L c i cur st ps = Inr (ps, st)"
  using find_pairs_noparen[of c L "[]" i cur st ps] by simp

lemma levels_doc:
  assumes ok: "\<forall>t \<in> set ts. \<forall>u \<in> set (topo_nodes t). tok_ok u"
    and sd: "\<forall>t \<in> set ts. siblings_distinct t"
    and dt: "distinct (map identity ts)"
    and tl: "tail = '';'' \<or> tail = '':''"
  shows "\<exists>st'. levels (Suc n) (doc_cut n ts tail) items st =
           Inr (tail, final_store n ts items, st')"
proof (induction n arbitrary: items st)
  case 0
  let ?b = "commas (map entry_text ts)"
  have np: "noparen tail" using tl by auto
  have b: "noparen ?b" by (rule body_noparen) (use ok in \<open>auto simp: topo_nodes_self\<close>)
  have "\<forall>t \<in> set ts. tok_ok t" using ok by (auto simp: topo_nodes_self)
  then have ev: "eval_dict ?b = Inr (map plain_entry ts)" using dt by (rule eval_body)
  have dc: "doc_cut 0 ts tail = CHR ''('' # ?b @ CHR '')'' # tail"
    by (simp add: doc_cut_def render_cut_0)
  have "find_pairs 1 (CHR ''('' # ?b @ CHR '')'' # tail) 0 0 st [] =
        find_pairs 1 (?b @ CHR '')'' # tail) (Suc 0) 1 (Some 0) []"
    by simp
  also have "\<dots> = find_pairs 1 (CHR '')'' # tail) (Suc 0 + length ?b) 1 (Some 0) []"
    by (rule find_pairs_noparen[OF b])
  also have "\<dots> = find_pairs 1 tail (Suc (Suc 0 + length ?b)) 0 (Some 0) [(0, Suc 0 + length ?b)]"
    by simp
  also have "\<dots> = Inr ([(0, Suc 0 + length ?b)], Some 0)"
    by (rule find_pairs_end[OF np])
  finally have f: "find_pairs (int (Suc 0)) (doc_cut 0 ts tail) 0 0 st [] =
                   Inr ([(0, length ?b + 1)], Some 0)"
    by (simp add: dc)
  have x: "excise (rev [(0, length ?b + 1)]) (doc_cut 0 ts tail) items =
           Inr (tail, AList.update Trunk (map plain_entry ts) items)"
    unfolding dc using trunk_excise[OF ev tl] by simp
  show ?case
    by (simp only: levels.simps f x sum.case prod.case final_store.simps) simp
next
  case (Suc n)
  let ?L = "int (Suc (Suc n))"
  let ?b = "commas (map (render_cut (Suc n)) ts)"
  let ?b' = "commas (map (render_cut n) ts)"
  have np: "noparen tail" using tl by auto
  have dc: "doc_cut (Suc n) ts tail = CHR ''('' # ?b @ CHR '')'' # tail"
    by (simp add: doc_cut_def)
  have el: "\<exists>st'. find_pairs ?L (render_cut (Suc n) t @ rest) i 1 st ps =
           find_pairs ?L rest (i + length (render_cut (Suc n) t)) 1 st' (ps @ spans (Suc n) t i)"
    if "t \<in> set ts" for t rest i st ps
    by (rule scan_tree) (use that ok in auto)
  have "\<exists>st'. find_pairs ?L (?b @ CHR '')'' # tail) (Suc 0) 1 st [] =
           find_pairs ?L (CHR '')'' # tail) (Suc 0 + length ?b) 1 st'
             ([] @ spans_list (Suc n) ts (Suc 0))"
    by (rule scan_list) (rule el)
  then obtain st1 where
    1: "find_pairs ?L (?b @ CHR '')'' # tail) (Suc 0) 1 st [] =
           find_pairs ?L (CHR '')'' # tail) (Suc 0 + length ?b) 1 st1
             ([] @ spans_list (Suc n) ts (Suc 0))"
    by auto
  have "find_pairs ?L (CHR ''('' # ?b @ CHR '')'' # tail) 0 0 st [] =
        find_pairs ?L (?b @ CHR '')'' # tail) (Suc 0) 1 st []"
    by simp
  also note 1
  also have "find_pairs ?L (CHR '')'' # tail) (Suc 0 + length ?b) 1 st1
             ([] @ spans_list (Suc n) ts (Suc 0)) =
        find_pairs ?L tail (Suc (Suc 0 + length ?b)) 0 st1 (spans_list (Suc n) ts (Suc 0))"
    by simp
  also have "\<dots> = Inr (spans_list (Suc n) ts (Suc 0), st1)"
    by (rule find_pairs_end[OF np])
  finally have f: "find_pairs ?L (doc_cut (Suc n) ts tail) 0 0 st [] =
                   Inr (spans_list (Suc n) ts (Suc 0), st1)"
    by (simp add: dc)
  have "excise (rev (spans_list (Suc n) ts (length [CHR ''(''])))
          ([CHR ''(''] @ ?b @ (CHR '')'' # tail)) items =
        Inr ([CHR ''(''] @ commas (map (render_cut (Suc n - 1)) ts) @ (CHR '')'' # tail),
             store_list (Suc n) ts items)"
    by (rule excise_list) (rule excise_tree, use ok sd in auto)
  then have x: "excise (rev (spans_list (Suc n) ts (Suc 0))) (doc_cut (Suc n) ts tail) items =
                Inr (doc_cut n ts tail, store_list (Suc n) ts items)"
    by (simp add: doc_cut_def)
  from Suc.IH[of "store_list (Suc n) ts items"]
  obtain st2 where
    2: "levels (Suc n) (doc_cut n ts tail) (store_list (Suc n) ts items)
          (if spans_list (Suc n) ts (Suc 0) = [] then st1
           else Some (fst (hd (spans_list (Suc n) ts (Suc 0))))) =
        Inr (tail, final_store n ts (store_list (Suc n) ts items), st2)"
    by blast
  have "levels (Suc (Suc n)) (doc_cut (Suc n) ts tail) items st =
        Inr (tail, final_store (Suc n) ts items, st2)"
    by (subst levels.simps) (simp only: f x sum.case prod.case 2 final_store.simps)
  then show ?case by blast
qed

subsection \<open>The store after the loop\<close>

lemma map_of_store_mono:
  "map_of items k \<noteq> None \<Longrightarrow> map_of (store j t items) k \<noteq> None"
  and map_of_store_list_mono:
    "map_of items k \<noteq> None \<Longrightarrow> map_of (store_list j ts items) k \<noteq> None"
  by (induction j t items and j ts items rule: store_store_list.induct)
    (auto simp: update_conv')

lemma final_store_mono:
  "map_of items k \<noteq> None \<Longrightarrow> map_of (final_store n ts items) k \<noteq> None"
proof (induction n arbitrary: items)
  case 0
  then show ?case by (simp add: update_conv')
next
  case (Suc n)
  from Suc.IH[OF map_of_store_list_mono[OF Suc.prems]] show ?case by simp
qed

lemma store_list_append:
  "store_list j (xs @ ys) items = store_list j xs (store_list j ys items)"
  by (induction xs) auto

lemma store_list_bound:
  assumes "c \<in> set ts" and "\<And>items. map_of (store j c items) k \<noteq> None"
  shows "map_of (store_list j ts items) k \<noteq> None"
proof -
  from assms(1) obtain xs ys where ts: "ts = xs @ c # ys" by (auto simp: in_set_conv_decomp)
  have "map_of (store j c (store_list j ys items)) k \<noteq> None" by (rule assms(2))
  then have "map_of (store_list j xs (store j c (store_list j ys items))) k \<noteq> None"
    by (rule map_of_store_list_mono)
  then show ?thesis by (simp add: ts store_list_append)
qed

lemma bound_at:
  "b \<in> set (topo_nodes t) \<Longrightarrow> is_branch b \<Longrightarrow>
     \<exists>j. 1 \<le> j \<and> j \<le> depth_of t \<and> (\<forall>items. map_of (store j t items) (key_of b) \<noteq> None)"
proof (induction t)
  case (Leaf a h)
  then show ?case by auto
next
  case (Branch ts a h)
  show ?case
  proof (cases "b = Branch ts a h")
    case True
    have "\<forall>items. map_of (store 1 (Branch ts a h) items) (key_of b) \<noteq> None"
      using True by (simp add: update_conv' key_of_def)
    then show ?thesis by (intro exI[of _ 1]) simp
  next
    case False
    with Branch.prems obtain c where c: "c \<in> set ts" "b \<in> set (topo_nodes c)" by auto
    from Branch.IH[OF c Branch.prems(2)] obtain j where
      j: "1 \<le> j" "j \<le> depth_of c" "\<forall>items. map_of (store j c items) (key_of b) \<noteq> None"
      by blast
    obtain j' where j': "j = Suc j'" using j(1) by (cases j) auto
    have "map_of (store (Suc j) (Branch ts a h) items) (key_of b) \<noteq> None" for items
      using store_list_bound[OF c(1), of j "key_of b" items] j(3) by (simp add: j')
    moreover have "depth_of c \<le> max_list (map depth_of ts)" using c(1) by (simp add: max_list_ge)
    ultimately show ?thesis using j(2) by (intro exI[of _ "Suc j"]) auto
  qed
qed

lemma final_store_bound:
  assumes "1 \<le> j" "j \<le> n" and "\<And>items. map_of (store_list j ts items) k \<noteq> None"
  shows "map_of (final_store n ts items) k \<noteq> None"
  using assms(2)
proof (induction n arbitrary: items)
  case 0
  then show ?case using assms(1) by simp
next
  case (Suc n)
  show ?case
  proof (cases "j = Suc n")
    case True
    then show ?thesis using assms(3)[of items] by (simp add: final_store_mono)
  next
    case False
    then have "j \<le> n" using Suc.prems by simp
    from Suc.IH[OF this] show ?thesis by simp
  qed
qed

lemma final_store_branch_bound:
  assumes "b \<in> set (forest_nodes ts)" "is_branch b"
  shows "map_of (final_store (max_list (map depth_of ts)) ts items) (key_of b) \<noteq> None"
proof -
  from assms(1) obtain c where c: "c \<in> set ts" "b \<in> set (topo_nodes c)"
    by (auto simp: forest_nodes_def)
  from bound_at[OF c(2) assms(2)] obtain j where
    j: "1 \<le> j" "j \<le> depth_of c" "\<forall>items. map_of (store j c items) (key_of b) \<noteq> None"
    by blast
  have "depth_of c \<le> max_list (map depth_of ts)" using c(1) by (simp add: max_list_ge)
  with j(2) have "j \<le> max_list (map depth_of ts)" by simp
  moreover have "map_of (store_list j ts items) (key_of b) \<noteq> None" for items
    using store_list_bound[OF c(1), of j "key_of b" items] j(3) by simp
  ultimately show ?thesis using j(1) by (intro final_store_bound[of j]) auto
qed

lemma final_store_trunk:
  "map_of (final_store n ts items) Trunk = Some (map plain_entry ts)"
  by (induction n arbitrary: items) (auto simp: update_conv')

lemma sound_update:
  "sound ts S \<Longrightarrow> b \<in> set (forest_nodes ts) \<Longrightarrow> is_branch b \<Longrightarrow>
     sound ts (AList.update (key_of b) (map plain_entry (subtrees b)) S)"
  unfolding sound_def by (auto simp: update_conv')

lemma sound_store:
  "sound ts S \<Longrightarrow> set (topo_nodes t) \<subseteq> set (forest_nodes ts) \<Longrightarrow> sound ts (store j t S)"
  and sound_store_list:
    "sound ts S \<Longrightarrow> (\<forall>t \<in> set cs. set (topo_nodes t) \<subseteq> set (forest_nodes ts)) \<Longrightarrow>
         sound ts (store_list j cs S)"
proof (induction j t S and j cs S rule: store_store_list.induct)
  case (3 cs a h S)
  have "Branch cs a h \<in> set (forest_nodes ts)" using 3(2) by auto
  from sound_update[OF 3(1) this] show ?case by (simp add: key_of_def)
next
  case (4 n cs a h S)
  have "\<forall>t \<in> set cs. set (topo_nodes t) \<subseteq> set (forest_nodes ts)" using 4(3) by auto
  with 4 show ?case by simp
qed auto

lemma sound_final_store: "sound ts S \<Longrightarrow> sound ts (final_store n ts S)"
proof (induction n arbitrary: S)
  case 0
  then show ?case unfolding sound_def by (auto simp: update_conv')
next
  case (Suc n)
  have "\<forall>t \<in> set ts. set (topo_nodes t) \<subseteq> set (forest_nodes ts)"
    by (auto simp: forest_nodes_def)
  from Suc.IH[OF sound_store_list[OF Suc.prems this]] show ?case by simp
qed

lemma distinct_identity_eq:
  "distinct (map identity ns) \<Longrightarrow> a \<in> set ns \<Longrightarrow> b \<in> set ns \<Longrightarrow>
     identity a = identity b \<Longrightarrow> a = b"
  by (auto simp: distinct_map inj_on_def)

lemma final_store_plain:
  assumes "distinct (map identity (forest_nodes ts))"
  shows "plain_in (final_store (max_list (map depth_of ts)) ts []) (forest_nodes ts)"
  unfolding plain_in_def
proof
  fix u assume u: "u \<in> set (forest_nodes ts)"
  let ?S = "final_store (max_list (map depth_of ts)) ts []"
  have s: "sound ts ?S" by (rule sound_final_store) (simp add: sound_def)
  show "map_of ?S (key_of u) =
        (if is_branch u then Some (map plain_entry (subtrees u)) else None)"
  proof (cases "map_of ?S (key_of u)")
    case None
    then show ?thesis using final_store_branch_bound[OF u, of "[]"] by auto
  next
    case (Some d)
    with s obtain b where b: "b \<in> set (forest_nodes ts)" "is_branch b" "key_of u = key_of b"
      "d = map plain_entry (subtrees b)"
      unfolding sound_def by (auto simp: key_of_def)
    then have "u = b" using distinct_identity_eq[OF assms u b(1)] by (simp add: key_of_def)
    with b Some show ?thesis by simp
  qed
qed

subsection \<open>Linking\<close>

lemma fst_plain_entry [simp]: "fst (plain_entry t) = identity t"
  by (simp add: plain_entry_def)

lemma fst_linked_entry [simp]: "fst (linked_entry t) = identity t"
  by (cases t) (simp_all add: plain_entry_def)

lemma linked_entry_leaf: "\<not> is_branch t \<Longrightarrow> linked_entry t = plain_entry t"
  by (cases t) simp_all

lemma linked_entry_branch:
  "is_branch t \<Longrightarrow> linked_entry t = (identity t, Pair (identity t) (Float (height t)))"
  by (cases t) simp_all

lemma update_mid:
  "k \<notin> fst ` set xs \<Longrightarrow> AList.update k v (xs @ (k, w) # ys) = xs @ (k, v) # ys"
  by (induction xs) auto

lemma map_of_mid: "k \<notin> fst ` set xs \<Longrightarrow> map_of (xs @ (k, w) # ys) k = Some w"
  by (induction xs) auto

lemma forest_nodes_Cons: "forest_nodes (t # ts) = topo_nodes t @ forest_nodes ts"
  by (simp add: forest_nodes_def)

lemma forest_nodes_append: "forest_nodes (xs @ ys) = forest_nodes xs @ forest_nodes ys"
  by (simp add: forest_nodes_def)

lemma forest_nodes_Nil [simp]: "forest_nodes [] = []"
  by (simp add: forest_nodes_def)

lemma topo_nodes_unfold: "topo_nodes t = t # forest_nodes (subtrees t)"
  by (cases t) (simp_all add: forest_nodes_def)

lemma in_forest_nodes: "t \<in> set ts \<Longrightarrow> t \<in> set (forest_nodes ts)"
  by (auto simp: forest_nodes_def intro: topo_nodes_self)

lemma distinct_key_of: "distinct (map key_of ns) = distinct (map identity ns)"
  by (simp add: distinct_map inj_on_def key_of_def)

lemma same_outside_refl: "same_outside S S K"
  by (simp add: same_outside_def)

lemma depth_of_subtrees: "is_branch t \<Longrightarrow> depth_of t = Suc (max_list (map depth_of (subtrees t)))"
  by (cases t) simp_all

lemma collect_loop_children:
  assumes IH: "\<And>c k n S. c \<in> set rest \<Longrightarrow>
      distinct (map key_of (forest_nodes (subtrees c))) \<Longrightarrow>
      k \<notin> key_of ` set (forest_nodes (subtrees c)) \<Longrightarrow>
      max_list (map depth_of (subtrees c)) < n \<Longrightarrow>
      map_of S k = Some (map plain_entry (subtrees c)) \<Longrightarrow>
      plain_in S (forest_nodes (subtrees c)) \<Longrightarrow>
      \<exists>S'. collect n k S = Inr S' \<and> map_of S' k = Some (map linked_entry (subtrees c)) \<and>
           linked_in S' (forest_nodes (subtrees c)) \<and>
           same_outside S S' (insert k (key_of ` set (forest_nodes (subtrees c))))"
    and d: "distinct (map key_of (forest_nodes (dn @ rest)))"
    and k: "k \<notin> key_of ` set (forest_nodes (dn @ rest))"
    and n: "max_list (map depth_of rest) \<le> m"
    and dict: "map_of Sc k = Some (map linked_entry dn @ map plain_entry rest)"
    and pl: "plain_in Sc (forest_nodes rest)"
  shows "\<exists>S'. collect_loop m k (map identity rest) Sc = Inr S' \<and>
           map_of S' k = Some (map linked_entry (dn @ rest)) \<and>
           linked_in S' (forest_nodes rest) \<and>
           same_outside Sc S' (insert k (key_of ` set (forest_nodes rest)))"
  using assms
proof (induction rest arbitrary: dn Sc)
  case Nil
  then show ?case by (simp add: linked_in_def same_outside_refl)
next
  case (Cons t rest)
  let ?N = "forest_nodes rest"
  let ?T = "topo_nodes t"
  have fn: "forest_nodes (dn @ t # rest) = forest_nodes dn @ ?T @ ?N"
    by (simp add: forest_nodes_append forest_nodes_Cons)
  have dall: "distinct (map key_of (forest_nodes dn @ ?T @ ?N))"
    using Cons.prems(2) by (simp only: fn)
  have dTN: "key_of ` set ?T \<inter> key_of ` set ?N = {}" using dall by auto
  have dDT: "key_of ` set (forest_nodes dn) \<inter> key_of ` set ?T = {}" using dall by auto
  have kT: "k \<notin> key_of ` set ?T" and kN: "k \<notin> key_of ` set ?N"
    using Cons.prems(3) by (simp_all only: fn) auto
  have tT: "t \<in> set ?T" by (rule topo_nodes_self)
  have idt: "identity t \<notin> identity ` set dn"
  proof
    assume "identity t \<in> identity ` set dn"
    then obtain u where u: "u \<in> set dn" "identity u = identity t" by auto
    then have "key_of u \<in> key_of ` set (forest_nodes dn)"
      by (auto intro!: imageI in_forest_nodes)
    moreover have "key_of u = key_of t" using u(2) by (simp add: key_of_def)
    ultimately show False using dDT tT by auto
  qed
  have IHrest: "\<exists>S'. collect_loop m k (map identity rest) S2 = Inr S' \<and>
           map_of S' k = Some (map linked_entry ((dn @ [t]) @ rest)) \<and>
           linked_in S' ?N \<and> same_outside S2 S' (insert k (key_of ` set ?N))"
    if "map_of S2 k = Some (map linked_entry (dn @ [t]) @ map plain_entry rest)"
      and "plain_in S2 ?N" for S2
  proof (rule Cons.IH[where dn="dn @ [t]" and Sc=S2])
    show "distinct (map key_of (forest_nodes ((dn @ [t]) @ rest)))"
      using Cons.prems(2) by simp
    show "k \<notin> key_of ` set (forest_nodes ((dn @ [t]) @ rest))"
      using Cons.prems(3) by simp
    show "max_list (map depth_of rest) \<le> m" using Cons.prems(4) by simp
    show "map_of S2 k = Some (map linked_entry (dn @ [t]) @ map plain_entry rest)"
      by (rule that(1))
    show "plain_in S2 ?N" by (rule that(2))
  next
    fix c k n S
    assume "c \<in> set rest"
    then have "c \<in> set (t # rest)" by simp
    from Cons.prems(1)[OF this]
    show "distinct (map key_of (forest_nodes (subtrees c))) \<Longrightarrow>
      k \<notin> key_of ` set (forest_nodes (subtrees c)) \<Longrightarrow>
      max_list (map depth_of (subtrees c)) < n \<Longrightarrow>
      map_of S k = Some (map plain_entry (subtrees c)) \<Longrightarrow>
      plain_in S (forest_nodes (subtrees c)) \<Longrightarrow>
      \<exists>S'. collect n k S = Inr S' \<and> map_of S' k = Some (map linked_entry (subtrees c)) \<and>
           linked_in S' (forest_nodes (subtrees c)) \<and>
           same_outside S S' (insert k (key_of ` set (forest_nodes (subtrees c))))"
      by blast
  qed
  have plT: "plain_in Sc ?T" and plN: "plain_in Sc ?N"
    using Cons.prems(6) by (auto simp: plain_in_def forest_nodes_Cons)
  show ?case
  proof (cases "is_branch t")
    case False
    have none: "map_of Sc (Id (identity t)) = None"
      using plT tT False by (auto simp: plain_in_def key_of_def)
    have step: "collect_loop m k (map identity (t # rest)) Sc =
                collect_loop m k (map identity rest) Sc"
      using none by simp
    have "map_of Sc k = Some (map linked_entry (dn @ [t]) @ map plain_entry rest)"
      using Cons.prems(5) False by (simp add: linked_entry_leaf)
    from IHrest[OF this plN] obtain S' where
      S': "collect_loop m k (map identity rest) Sc = Inr S'"
        "map_of S' k = Some (map linked_entry ((dn @ [t]) @ rest))"
        "linked_in S' ?N" "same_outside Sc S' (insert k (key_of ` set ?N))"
      by blast
    have "linked_in S' ?T" unfolding linked_in_def
    proof
      fix u assume u: "u \<in> set ?T"
      then have "key_of u \<notin> insert k (key_of ` set ?N)" using kT dTN by auto
      then have "map_of S' (key_of u) = map_of Sc (key_of u)"
        using S'(4) by (simp add: same_outside_def)
      moreover have "u = t" using u False by (cases t) auto
      ultimately show "map_of S' (key_of u) =
          (if is_branch u then Some (map linked_entry (subtrees u)) else None)"
        using none False by (simp add: key_of_def)
    qed
    with S'(3) have l: "linked_in S' (forest_nodes (t # rest))"
      by (auto simp: linked_in_def forest_nodes_Cons)
    have so: "same_outside Sc S' (insert k (key_of ` set (forest_nodes (t # rest))))"
      using S'(4) by (auto simp: same_outside_def forest_nodes_Cons)
    show ?thesis using step S'(1,2) l so by auto
  next
    case True
    let ?cs = "subtrees t"
    let ?C = "forest_nodes ?cs"
    have TC: "?T = t # ?C" by (rule topo_nodes_unfold)
    have some: "map_of Sc (key_of t) = Some (map plain_entry ?cs)"
      using plT tT True by (auto simp: plain_in_def)
    have dT: "distinct (map key_of ?T)" using dall by simp
    then have dC: "distinct (map key_of ?C)" and tC: "key_of t \<notin> key_of ` set ?C"
      by (simp_all add: TC)
    have "depth_of t \<le> max_list (map depth_of (t # rest))" by simp
    with Cons.prems(4) True have dep: "max_list (map depth_of ?cs) < m"
      by (simp add: depth_of_subtrees)
    have plC: "plain_in Sc ?C" using plT by (auto simp: plain_in_def TC)
    from Cons.prems(1)[of t "key_of t" m Sc, OF _ dC tC dep some plC] obtain S1 where
      S1: "collect m (key_of t) Sc = Inr S1"
        "map_of S1 (key_of t) = Some (map linked_entry ?cs)"
        "linked_in S1 ?C" "same_outside Sc S1 (insert (key_of t) (key_of ` set ?C))"
      by auto
    have out1: "map_of S1 x = map_of Sc x" if "x \<notin> key_of ` set ?T" for x
      using S1(4) that by (simp add: same_outside_def TC)
    let ?d = "map linked_entry dn @ map plain_entry (t # rest)"
    have l1: "map_of S1 k = Some ?d" using out1[OF kT] Cons.prems(5) by simp
    have d2: "?d = map linked_entry dn @ (identity t, Float (height t)) # map plain_entry rest"
      by (simp add: plain_entry_def)
    have nf: "identity t \<notin> fst ` set (map linked_entry dn)"
      using idt by (simp add: image_image)
    have l2: "map_of ?d (identity t) = Some (Float (height t))"
      unfolding d2 by (rule map_of_mid[OF nf])
    let ?d' = "map linked_entry (dn @ [t]) @ map plain_entry rest"
    have upd: "AList.update (identity t) (Pair (identity t) (Float (height t))) ?d = ?d'"
      unfolding d2 using update_mid[OF nf] True by (simp add: linked_entry_branch)
    let ?S2 = "AList.update k ?d' S1"
    have step: "collect_loop m k (map identity (t # rest)) Sc =
                collect_loop m k (map identity rest) ?S2"
      using some S1(1) l1 l2 upd by (simp add: key_of_def lookup_def)
    have out2: "map_of ?S2 x = map_of S1 x" if "x \<noteq> k" for x
      using that by (simp add: update_conv')
    have m2: "map_of ?S2 k = Some ?d'" by (simp add: update_conv')
    have pl2: "plain_in ?S2 ?N" unfolding plain_in_def
    proof
      fix u assume u: "u \<in> set ?N"
      then have ne: "key_of u \<noteq> k" "key_of u \<notin> key_of ` set ?T" using kN dTN by auto
      have "map_of ?S2 (key_of u) = map_of S1 (key_of u)" by (rule out2[OF ne(1)])
      also have "\<dots> = map_of Sc (key_of u)" by (rule out1[OF ne(2)])
      finally have "map_of ?S2 (key_of u) = map_of Sc (key_of u)" .
      then show "map_of ?S2 (key_of u) =
          (if is_branch u then Some (map plain_entry (subtrees u)) else None)"
        using plN u by (simp add: plain_in_def)
    qed
    from IHrest[OF m2 pl2] obtain S' where
      S': "collect_loop m k (map identity rest) ?S2 = Inr S'"
        "map_of S' k = Some (map linked_entry ((dn @ [t]) @ rest))"
        "linked_in S' ?N" "same_outside ?S2 S' (insert k (key_of ` set ?N))"
      by blast
    have out3: "map_of S' x = map_of ?S2 x" if "x \<noteq> k" "x \<notin> key_of ` set ?N" for x
      using S'(4) that by (simp add: same_outside_def)
    have "linked_in S' ?T" unfolding linked_in_def
    proof
      fix u assume u: "u \<in> set ?T"
      then have ne: "key_of u \<noteq> k" "key_of u \<notin> key_of ` set ?N" using kT dTN by auto
      then have e: "map_of S' (key_of u) = map_of S1 (key_of u)" by (simp add: out3 update_conv')
      show "map_of S' (key_of u) =
          (if is_branch u then Some (map linked_entry (subtrees u)) else None)"
      proof (cases "u = t")
        case True
        then show ?thesis using e S1(2) \<open>is_branch t\<close> by simp
      next
        case False
        then have "u \<in> set ?C" using u by (simp add: TC)
        then show ?thesis using e S1(3) by (simp add: linked_in_def)
      qed
    qed
    with S'(3) have l: "linked_in S' (forest_nodes (t # rest))"
      by (auto simp: linked_in_def forest_nodes_Cons)
    have so: "same_outside Sc S' (insert k (key_of ` set (forest_nodes (t # rest))))"
      unfolding same_outside_def
    proof (intro allI impI)
      fix x assume "x \<notin> insert k (key_of ` set (forest_nodes (t # rest)))"
      then have "x \<noteq> k" "x \<notin> key_of ` set ?N" "x \<notin> key_of ` set ?T"
        by (auto simp: forest_nodes_Cons)
      then show "map_of S' x = map_of Sc x" by (simp add: out3 out1 update_conv')
    qed
    show ?thesis using step S'(1,2) l so by auto
  qed
qed

subsection \<open>The parser\<close>

lemma collect_children:
  "distinct (map key_of (forest_nodes (subtrees t))) \<Longrightarrow>
   k \<notin> key_of ` set (forest_nodes (subtrees t)) \<Longrightarrow>
   max_list (map depth_of (subtrees t)) < n \<Longrightarrow>
   map_of S k = Some (map plain_entry (subtrees t)) \<Longrightarrow>
   plain_in S (forest_nodes (subtrees t)) \<Longrightarrow>
   \<exists>S'. collect n k S = Inr S' \<and> map_of S' k = Some (map linked_entry (subtrees t)) \<and>
        linked_in S' (forest_nodes (subtrees t)) \<and>
        same_outside S S' (insert k (key_of ` set (forest_nodes (subtrees t))))"
proof (induction t arbitrary: k n S)
  case (Leaf a h)
  then obtain m where "n = Suc m" by (cases n) auto
  with Leaf show ?case
    by (simp add: lookup_def linked_in_def same_outside_refl)
next
  case (Branch cs a h)
  from Branch.prems(3) obtain m where n: "n = Suc m" and m: "max_list (map depth_of cs) \<le> m"
    by (cases n) auto
  have c: "collect n k S = collect_loop m k (map identity cs) S"
    using Branch.prems(4) by (simp add: n lookup_def comp_def)
  have "\<exists>S'. collect_loop m k (map identity cs) S = Inr S' \<and>
           map_of S' k = Some (map linked_entry ([] @ cs)) \<and>
           linked_in S' (forest_nodes cs) \<and>
           same_outside S S' (insert k (key_of ` set (forest_nodes cs)))"
  proof (rule collect_loop_children)
    show "distinct (map key_of (forest_nodes ([] @ cs)))" using Branch.prems(1) by simp
    show "k \<notin> key_of ` set (forest_nodes ([] @ cs))" using Branch.prems(2) by simp
    show "max_list (map depth_of cs) \<le> m" by (rule m)
    show "map_of S k = Some (map linked_entry [] @ map plain_entry cs)"
      using Branch.prems(4) by simp
    show "plain_in S (forest_nodes cs)" using Branch.prems(5) by simp
  next
    fix c k n S
    assume "c \<in> set cs"
    from Branch.IH[OF this]
    show "distinct (map key_of (forest_nodes (subtrees c))) \<Longrightarrow>
      k \<notin> key_of ` set (forest_nodes (subtrees c)) \<Longrightarrow>
      max_list (map depth_of (subtrees c)) < n \<Longrightarrow>
      map_of S k = Some (map plain_entry (subtrees c)) \<Longrightarrow>
      plain_in S (forest_nodes (subtrees c)) \<Longrightarrow>
      \<exists>S'. collect n k S = Inr S' \<and> map_of S' k = Some (map linked_entry (subtrees c)) \<and>
           linked_in S' (forest_nodes (subtrees c)) \<and>
           same_outside S S' (insert k (key_of ` set (forest_nodes (subtrees c))))"
      by blast
  qed
  then show ?case by (simp add: c)
qed

lemma distinct_heads:
  "distinct (map f (forest_nodes cs)) \<Longrightarrow> distinct (map f cs)"
proof (induction cs)
  case Nil
  then show ?case by simp
next
  case (Cons c cs)
  have s: "set cs \<subseteq> set (forest_nodes cs)" by (auto intro: in_forest_nodes)
  from Cons.prems have d: "distinct (map f (forest_nodes cs))"
    and n: "f c \<notin> f ` set (forest_nodes cs)"
    by (auto simp: forest_nodes_Cons topo_nodes_unfold[of c])
  from n s have "f c \<notin> f ` set cs" by auto
  with Cons.IH[OF d] show ?case by simp
qed

lemma distinct_forest_member:
  "distinct (map f (forest_nodes cs)) \<Longrightarrow> c \<in> set cs \<Longrightarrow> distinct (map f (topo_nodes c))"
  by (induction cs) (auto simp: forest_nodes_Cons)

lemma distinct_siblings:
  "distinct (map identity (topo_nodes t)) \<Longrightarrow> siblings_distinct t"
  unfolding siblings_distinct_def
proof (induction t)
  case (Leaf a h)
  then show ?case by simp
next
  case (Branch cs a h)
  from Branch.prems have d: "distinct (map identity (forest_nodes cs))"
    by (simp add: forest_nodes_def)
  have "distinct (map identity (subtrees u))" if "u \<in> set (topo_nodes (Branch cs a h))" for u
  proof (cases "u = Branch cs a h")
    case True
    then show ?thesis using distinct_heads[OF d] by simp
  next
    case False
    with that obtain c where c: "c \<in> set cs" "u \<in> set (topo_nodes c)" by auto
    from Branch.IH[OF c(1) distinct_forest_member[OF d c(1)]] c(2) show ?thesis by blast
  qed
  then show ?case by blast
qed

lemma parse_well_formed:
  assumes wf: "well_formed ts" and tl: "tail = '';'' \<or> tail = '':''"
    and dp: "max_list (map depth_of ts) < depth"
  shows "\<exists>items. parse_newick depth (document ts tail) = Inr (map linked_entry ts, items) \<and>
           map_of items Trunk = Some (map linked_entry ts) \<and>
           linked_in items (forest_nodes ts)"
proof -
  let ?D = "max_list (map depth_of ts)"
  let ?S0 = "final_store ?D ts []"
  from wf have tk: "\<forall>u \<in> set (forest_nodes ts). tok_ok u"
    and di: "distinct (map identity (forest_nodes ts))"
    by (auto simp: well_formed_def forest_nodes_def tok_ok_def)
  have ok: "\<forall>t \<in> set ts. \<forall>u \<in> set (topo_nodes t). tok_ok u"
    using tk by (auto simp: forest_nodes_def)
  have sd: "\<forall>t \<in> set ts. siblings_distinct t"
    using distinct_forest_member[OF di] by (auto intro: distinct_siblings)
  have dt: "distinct (map identity ts)" by (rule distinct_heads[OF di])
  have np: "noparen tail" using tl by auto
  have ml: "nat (find_max_level (document ts tail)) = Suc ?D"
    by (simp add: document_doc_cut find_max_level_doc_cut[OF ok np])
  from levels_doc[OF ok sd dt tl, of ?D "[]" None] obtain st' where
    lv: "levels (Suc ?D) (doc_cut ?D ts tail) [] None = Inr (tail, ?S0, st')"
    by blast
  have tr: "lookup ?S0 Trunk = Inr (map plain_entry ts)"
    by (simp add: lookup_def final_store_trunk)
  have "\<exists>S'. collect depth Trunk ?S0 = Inr S' \<and>
          map_of S' Trunk = Some (map linked_entry (subtrees (Branch ts [] []))) \<and>
          linked_in S' (forest_nodes (subtrees (Branch ts [] []))) \<and>
          same_outside ?S0 S'
            (insert Trunk (key_of ` set (forest_nodes (subtrees (Branch ts [] [])))))"
  proof (rule collect_children)
    show "distinct (map key_of (forest_nodes (subtrees (Branch ts [] []))))"
      using di by (simp add: distinct_key_of)
    show "Trunk \<notin> key_of ` set (forest_nodes (subtrees (Branch ts [] [])))"
      by (auto simp: key_of_def)
    show "max_list (map depth_of (subtrees (Branch ts [] []))) < depth" using dp by simp
    show "map_of ?S0 Trunk = Some (map plain_entry (subtrees (Branch ts [] [])))"
      by (simp add: final_store_trunk)
    show "plain_in ?S0 (forest_nodes (subtrees (Branch ts [] [])))"
      using final_store_plain[OF di] by simp
  qed
  then obtain S' where S': "collect depth Trunk ?S0 = Inr S'"
    "map_of S' Trunk = Some (map linked_entry ts)" "linked_in S' (forest_nodes ts)"
    by auto
  have l2: "levels (nat (find_max_level (document ts tail))) (document ts tail) [] None =
            Inr (tail, ?S0, st')"
    unfolding ml unfolding document_doc_cut by (rule lv)
  have "lookup S' Trunk = Inr (map linked_entry ts)" using S'(2) by (simp add: lookup_def)
  then have "parse_newick depth (document ts tail) = Inr (map linked_entry ts, S')"
    unfolding parse_newick_def l2 by (simp add: tr S'(1))
  with S'(2,3) show ?thesis by blast
qed

subsection \<open>The nested mapping\<close>

text \<open>
  Claim C4, as stated, fails for the strings of the grammar it refers to, in which a colon
  separates a group from its identity: on \<^verbatim>\<open>((1:1.0,2:1.5):3:4.0):\<close> the parser raises
  \<^verbatim>\<open>SyntaxError\<close>.
\<close>

theorem parse_newick_colon_counterexample:
  "parse_newick 1000 ''((1:1.0,2:1.5):3:4.0):'' = Inl SyntaxError"
  by code_simp

text \<open>
  Claim C4, amended. The well-formed strings are those in which the identity of a group follows
  its closing parenthesis directly: the document \<open>document ts tail\<close> of a forest \<open>ts\<close> whose
  identities are pairwise distinct decimal integers and whose heights are float literals, ended
  by \<^verbatim>\<open>;\<close> or \<^verbatim>\<open>:\<close>. If the nesting of the forest is below the recursion depth available,
  \<^verbatim>\<open>_parse_newick\<close> (which resolves the spans from the deepest level upward and, within a level,
  from right to left) returns the mapping of the root nodes, in which a leaf has its height as
  value and a branch the pair of the mapping of its children and its height; the mapping of
  the children of every branch is of the same form, and no leaf has a mapping.
\<close>

theorem parse_newick_well_formed:
  assumes "well_formed ts" and "tail = '';'' \<or> tail = '':''"
    and "max_list (map depth_of ts) < depth"
  shows "\<exists>items. parse_newick depth (document ts tail) = Inr (map linked_entry ts, items) \<and>
           map_of items Trunk = Some (map linked_entry ts) \<and>
           (\<forall>u \<in> set (forest_nodes ts). map_of items (Id (identity u)) =
              (if is_branch u then Some (map linked_entry (subtrees u)) else None))"
  using parse_well_formed[OF assms] by (simp add: linked_in_def key_of_def)

theorem parse_newick_well_formed_witness:
  "well_formed [Branch [Leaf ''1'' ''1.0'', Leaf ''2'' ''1.5''] ''3'' ''4.0'', Leaf ''9'' ''2.5''] \<and>
   max_list (map depth_of
     [Branch [Leaf ''1'' ''1.0'', Leaf ''2'' ''1.5''] ''3'' ''4.0'', Leaf ''9'' ''2.5'']) < 1000 \<and>
   document [Branch [Leaf ''1'' ''1.0'', Leaf ''2'' ''1.5''] ''3'' ''4.0'', Leaf ''9'' ''2.5''] '';''
     = ''((1:1.0,2:1.5)3:4.0,9:2.5);'' \<and>
   map linked_entry
     [Branch [Leaf ''1'' ''1.0'', Leaf ''2'' ''1.5''] ''3'' ''4.0'', Leaf ''9'' ''2.5'']
     = [(3, Pair 3 (Float 4)), (9, Float (5/2))] \<and>
   (\<exists>items. parse_newick 1000 ''((1:1.0,2:1.5)3:4.0,9:2.5);'' =
              Inr ([(3, Pair 3 (Float 4)), (9, Float (5/2))], items) \<and>
            map_of items (Id 3) = Some [(1, Float 1), (2, Float (3/2))])"
proof -
  let ?ts = "[Branch [Leaf ''1'' ''1.0'', Leaf ''2'' ''1.5''] ''3'' ''4.0'', Leaf ''9'' ''2.5'']"
  have w: "well_formed ?ts" by code_simp
  have d: "max_list (map depth_of ?ts) < 1000" by simp
  have t: "document ?ts '';'' = ''((1:1.0,2:1.5)3:4.0,9:2.5);''" by code_simp
  have l: "map linked_entry ?ts = [(3, Pair 3 (Float 4)), (9, Float (5/2))]" by code_simp
  have b: "Branch [Leaf ''1'' ''1.0'', Leaf ''2'' ''1.5''] ''3'' ''4.0'' \<in> set (forest_nodes ?ts)"
    by (simp add: forest_nodes_def)
  have i: "identity (Branch [Leaf ''1'' ''1.0'', Leaf ''2'' ''1.5''] ''3'' ''4.0'') = 3"
    by code_simp
  have c: "map linked_entry [Leaf ''1'' ''1.0'', Leaf ''2'' ''1.5''] =
           [(1, Float 1), (2, Float (3/2))]"
    by code_simp
  from parse_newick_well_formed[OF w _ d, of "'';''"] obtain items where
    p: "parse_newick 1000 (document ?ts '';'') = Inr (map linked_entry ?ts, items)"
    and a: "\<forall>u \<in> set (forest_nodes ?ts). map_of items (Id (identity u)) =
              (if is_branch u then Some (map linked_entry (subtrees u)) else None)"
    by auto
  from a b have "map_of items (Id (identity (Branch [Leaf ''1'' ''1.0'', Leaf ''2'' ''1.5''] ''3'' ''4.0'')))
      = Some (map linked_entry [Leaf ''1'' ''1.0'', Leaf ''2'' ''1.5''])"
    by fastforce
  then have m: "map_of items (Id 3) = Some [(1, Float 1), (2, Float (3/2))]"
    by (simp only: i c)
  from p have "parse_newick 1000 ''((1:1.0,2:1.5)3:4.0,9:2.5);'' =
               Inr ([(3, Pair 3 (Float 4)), (9, Float (5/2))], items)"
    by (simp only: t l)
  with m w d t l show ?thesis by blast
qed

section \<open>Export followed by import\<close>

subsection \<open>Decimal text\<close>













subsection \<open>The topology of a node\<close>

lemma topo_of_sel [simp]:
  "id_token (topo_of h u) = str_int (idx u)"
  "height_token (topo_of h u) = h u"
  "subtrees (topo_of h u) = map (topo_of h) (children u)"
  "is_branch (topo_of h u) \<longleftrightarrow> children u \<noteq> []"
  by (cases u; simp)+









lemma fits_set_level [simp]: "fits (set_level l u) t = fits u t"
  by (cases u; cases t) simp_all

lemma depth_of_set_level [simp]: "depth_of (topo_of h (set_level l u)) = depth_of (topo_of h u)"
  by (cases u) simp

lemma fits_sel:
  "fits u t \<Longrightarrow> identity t = idx u \<and> (is_branch t \<longleftrightarrow> children u \<noteq> []) \<and>
     list_all2 fits (children u) (subtrees t)"
  by (cases u; cases t) simp_all


lemma max_list_le: "(max_list xs \<le> n) = (\<forall>x \<in> set xs. x \<le> n)"
  by (induction xs) auto

subsection \<open>\<^verbatim>\<open>_construct_tree\<close> depends on the shape of its argument only\<close>



subsection \<open>The nesting of the nodes is below the recursion depth\<close>


subsection \<open>The file written and read back\<close>




subsection \<open>The round trip\<close>




end
